theory Spec2Isabelle
  imports Main "HOL-Library.Word" "HOL-Library.Sublist" "HOL-Library.Log_Nat"
begin

section \<open>Strings\<close>

text \<open>
  A JavaScript string is a sequence of 16-bit code units. String literals of the source
  are written \<open>js ''...''\<close>: every character of an ASCII literal is one code unit.
\<close>

type_synonym cu = "16 word"
type_synonym jsstring = "cu list"

definition js :: "string \<Rightarrow> jsstring" where
  "js s = map (\<lambda>c. of_nat (of_char c)) s"

text \<open>\<open>path.startsWith(p)\<close>.\<close>

definition startsWith :: "jsstring \<Rightarrow> jsstring \<Rightarrow> bool" where
  "startsWith path p = prefix p path"

section \<open>The provider's constants\<close>

definition baseUrl :: jsstring where
  "baseUrl = js ''https://mangapark.io''"

definition apiUrl :: jsstring where
  "apiUrl = baseUrl @ js ''/apo/''"

definition DEFAULT_HEADERS :: "(jsstring \<times> jsstring) list" where
  "DEFAULT_HEADERS =
     [(js ''Content-Type'', js ''application/json''), (js ''Referer'', baseUrl)]"

section \<open>buildUrl\<close>

text \<open>
  \<^verbatim>\<open>
  private buildUrl(path: string): string {
    if (!path) return ""
    if (path.startsWith('http')) return path
    if (path.startsWith('/')) return `${this.baseUrl}${path}`
    return path
  }
  \<close>
  For a string, \<open>!path\<close> holds exactly when it is empty.
\<close>

definition buildUrl :: "jsstring \<Rightarrow> jsstring" where
  "buildUrl path =
     (if path = [] then []
      else if startsWith path (js ''http'') then path
      else if startsWith path (js ''/'') then baseUrl @ path
      else path)"

section \<open>Regular expressions of parseChapterNumber\<close>

text \<open>
  The three regular expressions of the source are matched by a backtracking matcher; each
  is written below as the function that computes the result of that matcher.

  \<open>\s\<close> matches the code units of WhiteSpace and LineTerminator, \<open>\S\<close> the others,
  \<open>\d\<close> the ASCII digits.
\<close>

definition is_ws :: "cu \<Rightarrow> bool" where
  "is_ws c \<longleftrightarrow>
     c = 0x9 \<or> c = 0xA \<or> c = 0xB \<or> c = 0xC \<or> c = 0xD \<or> c = 0x20 \<or> c = 0xA0 \<or>
     c = 0x1680 \<or> (0x2000 \<le> c \<and> c \<le> 0x200A) \<or> c = 0x2028 \<or> c = 0x2029 \<or>
     c = 0x202F \<or> c = 0x205F \<or> c = 0x3000 \<or> c = 0xFEFF"

definition is_digit :: "cu \<Rightarrow> bool" where
  "is_digit c \<longleftrightarrow> 0x30 \<le> c \<and> c \<le> 0x39"

text \<open>
  With the flag \<open>i\<close> (and without \<open>u\<close>) two code units match when their
  canonical forms are equal. The canonical form is the upper-case code unit, except that
  a code unit of 128 or more never takes a canonical form below 128. Every pattern
  character of the source is ASCII, so only the canonical forms of ASCII code units
  matter: a non-ASCII code unit is left as it is here, which no ASCII pattern character
  equals either way.
\<close>

definition canonicalize :: "cu \<Rightarrow> cu" where
  "canonicalize c = (if 0x61 \<le> c \<and> c \<le> 0x7A then c - 0x20 else c)"

text \<open>A literal pattern, ignoring case, at the start of a string: the rest after it.\<close>

definition match_ci :: "jsstring \<Rightarrow> jsstring \<Rightarrow> jsstring option" where
  "match_ci pat s =
     (if length pat \<le> length s \<and>
         map canonicalize (take (length pat) s) = map canonicalize pat
      then Some (drop (length pat) s) else None)"

text \<open>
  \<^verbatim>\<open>dname.replace(/^Vol\.\s*\S+\s+/i, '')\<close>

  After \<open>Vol.\<close> the greedy \<open>\s*\<close> takes the whole run of white space, \<open>\S+\<close>
  the whole run of other code units that follows, and \<open>\s+\<close> the run of white space
  after it. Giving back a code unit never helps: the code unit given back by \<open>\s*\<close>
  is white space, which \<open>\S+\<close> refuses, and the one given back by \<open>\S+\<close> is not
  white space, which \<open>\s+\<close> refuses. So the expression matches exactly when the
  second run and the third run are not empty, and the match is replaced by the empty
  string. Without a match the string is unchanged.
\<close>

definition remove_volume :: "jsstring \<Rightarrow> jsstring" where
  "remove_volume dname =
     (case match_ci (js ''Vol.'') dname of
        None \<Rightarrow> dname
      | Some r \<Rightarrow>
          (let r1 = dropWhile is_ws r;
               tok = takeWhile (\<lambda>c. \<not> is_ws c) r1;
               r2 = dropWhile (\<lambda>c. \<not> is_ws c) r1
           in if tok \<noteq> [] \<and> r2 \<noteq> [] then dropWhile is_ws r2 else dname))"

text \<open>\<^verbatim>\<open>cleaned.match(/^Chapter\s+Bonus/i)\<close>, as a truth value.\<close>

definition is_bonus :: "jsstring \<Rightarrow> bool" where
  "is_bonus cleaned =
     (case match_ci (js ''Chapter'') cleaned of
        None \<Rightarrow> False
      | Some r \<Rightarrow>
          takeWhile is_ws r \<noteq> [] \<and> match_ci (js ''Bonus'') (dropWhile is_ws r) \<noteq> None)"

text \<open>
  \<^verbatim>\<open>\s*(\d+(?:\.\d+)?)\<close> at the start of a string: the text of the capture group. The
  fraction is taken only when a digit follows the dot.
\<close>

definition number_here :: "jsstring \<Rightarrow> jsstring option" where
  "number_here r =
     (let r1 = dropWhile is_ws r;
          ip = takeWhile is_digit r1;
          r2 = dropWhile is_digit r1
      in if ip = [] then None
         else (case r2 of
                 [] \<Rightarrow> Some ip
               | c # r3 \<Rightarrow>
                   if c = 0x2E \<and> takeWhile is_digit r3 \<noteq> []
                   then Some (ip @ [0x2E] @ takeWhile is_digit r3)
                   else Some ip))"

text \<open>
  \<^verbatim>\<open>(?:Ch\.|Chapter)\s*(\d+(?:\.\d+)?)\<close> at the start of a string: the first alternative
  is tried first, the second when the first one does not lead to a match.
\<close>

definition chapter_here :: "jsstring \<Rightarrow> jsstring option" where
  "chapter_here s =
     (case (case match_ci (js ''Ch.'') s of None \<Rightarrow> None | Some r \<Rightarrow> number_here r) of
        Some num \<Rightarrow> Some num
      | None \<Rightarrow>
          (case match_ci (js ''Chapter'') s of None \<Rightarrow> None | Some r \<Rightarrow> number_here r))"

text \<open>
  \<^verbatim>\<open>cleaned.match(/(?:Ch\.|Chapter)\s*(\d+(?:\.\d+)?)/i)\<close>: the capture group of the
  leftmost match, \<open>None\<close> when \<open>match\<close> returns \<open>null\<close>.
\<close>

fun chapter_match :: "jsstring \<Rightarrow> jsstring option" where
  "chapter_match [] = None"
| "chapter_match (c # cs) =
     (case chapter_here (c # cs) of
        Some num \<Rightarrow> Some num
      | None \<Rightarrow> chapter_match cs)"

section \<open>Numbers\<close>

text \<open>
  The Number values that \<open>parseFloat\<close> can return on the text of the capture group:
  a digit string never gives a negative value or a negative zero.
\<close>

datatype js_number = NaN | PosInfinity | Finite rat

text \<open>The number of digits of a positive integer \<open>x\<close> in base \<open>b\<close>.\<close>

function ilen :: "int \<Rightarrow> int \<Rightarrow> int" where
  "ilen b x = (if 1 < b \<and> 0 < x then ilen b (x div b) + 1 else 0)"
  by pat_completeness auto
termination
  by (relation "measure (\<lambda>(b, x). nat x)") (auto simp: zdiv_mono2 intro: int_div_less_self)

text \<open>
  The integer \<open>e\<close> with \<open>b ^ e \<le> v < b ^ (e + 1)\<close>, for a positive \<open>v\<close>: when
  \<open>v\<close> is the fraction \<open>p / q\<close>, it is the difference of the numbers of digits of
  \<open>p\<close> and \<open>q\<close>, or one less.
\<close>

definition ilog :: "int \<Rightarrow> rat \<Rightarrow> int" where
  "ilog b v =
     (let (p, q) = quotient_of v;
          d = ilen b p - ilen b q
      in if of_int b powi d \<le> v then d else d - 1)"

definition round_half_even :: "rat \<Rightarrow> int" where
  "round_half_even q =
     (let f = \<lfloor>q\<rfloor>; r = q - of_int f
      in if r < 1 / 2 then f
         else if 1 / 2 < r then f + 1
         else if even f then f else f + 1)"

text \<open>
  The Number value for a mathematical value \<open>v \<ge> 0\<close>: the binary64 value nearest to
  \<open>v\<close>, the one with an even significand when two are equally near, and infinity from
  \<open>2 ^ 1024\<close> on. The significand has 53 bits; below \<open>2 ^ -1022\<close> the values are
  the multiples of \<open>2 ^ -1074\<close>.
\<close>

definition to_double :: "rat \<Rightarrow> js_number" where
  "to_double v =
     (if v \<le> 0 then Finite 0
      else
        (let e = max (ilog 2 v) (- 1022) - 52;
             x = of_int (round_half_even (v / 2 powi e)) * 2 powi e
         in if 2 powi 1024 \<le> x then PosInfinity else Finite x))"

definition digit_value :: "cu \<Rightarrow> int" where
  "digit_value c = uint c - 48"

definition digits_value :: "jsstring \<Rightarrow> int" where
  "digits_value ds = foldl (\<lambda>a c. 10 * a + digit_value c) 0 ds"

text \<open>
  \<open>parseFloat\<close> on the text of the capture group, which is a run of digits, or a run
  of digits, a dot and a run of digits. The longest prefix that is a decimal literal is
  the whole text, its mathematical value is rounded to a Number. Sign, exponent, leading
  white space and \<open>Infinity\<close> cannot occur in that text and are not modelled.
\<close>

definition parseFloat :: "jsstring \<Rightarrow> js_number" where
  "parseFloat s =
     (let ip = takeWhile is_digit s;
          r = dropWhile is_digit s;
          fp = (case r of [] \<Rightarrow> [] | c # r' \<Rightarrow> if c = 0x2E then takeWhile is_digit r' else [])
      in if ip = [] \<and> fp = [] then NaN
         else to_double (of_int (digits_value ip) +
                of_int (digits_value fp) / 10 ^ length fp))"

text \<open>
  \<open>Number.prototype.toString\<close> with radix 10 writes the digits of the integers
  \<open>n\<close>, \<open>k\<close>, \<open>s\<close> with \<open>k \<ge> 1\<close>, \<open>10 ^ (k - 1) \<le> s < 10 ^ k\<close>, such that
  \<open>s * 10 ^ (n - k)\<close> has the Number value \<open>x\<close>, and \<open>k\<close> is as small as possible;
  among several \<open>s\<close>, the one nearest to \<open>x\<close>.

  For a given \<open>k\<close>, two values with \<open>k\<close> digits have to be tried: the multiples of
  \<open>10 ^ (n0 - k)\<close> just below and just above \<open>x\<close>, where \<open>10 ^ (n0 - 1) \<le> x < 10 ^ n0\<close>.
  The upper one may be \<open>10 ^ n0\<close> itself, which is written with \<open>n = n0 + 1\<close>.
\<close>

definition represents :: "rat \<Rightarrow> rat \<Rightarrow> bool" where
  "represents x c \<longleftrightarrow> to_double c = Finite x"

definition digits_at :: "rat \<Rightarrow> int \<Rightarrow> nat \<Rightarrow> (int \<times> int) option" where
  "digits_at x n0 k =
     (let g = 10 powi (n0 - int k);
          lo = \<lfloor>x / g\<rfloor>;
          hi = lo + 1;
          ok_lo = represents x (of_int lo * g);
          ok_hi = represents x (of_int hi * g);
          nearer_lo = (x - of_int lo * g < of_int hi * g - x \<or>
                       (x - of_int lo * g = of_int hi * g - x \<and> even lo));
          pick = (if ok_lo \<and> ok_hi then Some (if nearer_lo then lo else hi)
                  else if ok_lo then Some lo
                  else if ok_hi then Some hi
                  else None)
      in (case pick of
            None \<Rightarrow> None
          | Some s \<Rightarrow> if s = 10 ^ k then Some (10 ^ (k - 1), n0 + 1) else Some (s, n0)))"

fun shortest_from :: "rat \<Rightarrow> int \<Rightarrow> nat \<Rightarrow> nat \<Rightarrow> (int \<times> nat \<times> int) option" where
  "shortest_from x n0 k 0 = None"
| "shortest_from x n0 k (Suc fuel) =
     (case digits_at x n0 k of
        Some (s, n) \<Rightarrow> Some (s, k, n)
      | None \<Rightarrow> shortest_from x n0 (Suc k) fuel)"

text \<open>
  Seventeen digits identify every binary64 value, so the search stops at \<open>k = 17\<close>; the
  last case below is there to make the function total.
\<close>

definition shortest_digits :: "rat \<Rightarrow> int \<times> nat \<times> int" where
  "shortest_digits x =
     (let n0 = ilog 10 x + 1
      in (case shortest_from x n0 1 17 of
            Some r \<Rightarrow> r
          | None \<Rightarrow> (\<lfloor>x / 10 powi (n0 - 17)\<rfloor>, 17, n0)))"

text \<open>The decimal digits of an integer that is not negative.\<close>

definition digit_cu :: "int \<Rightarrow> cu" where
  "digit_cu d = of_int (48 + d)"

function int_digits :: "int \<Rightarrow> jsstring" where
  "int_digits n =
     (if n < 10 then [digit_cu n] else int_digits (n div 10) @ [digit_cu (n mod 10)])"
  by pat_completeness auto
termination
  by (relation "measure nat") auto

text \<open>
  \<open>Number::toString(x, 10)\<close>: decimal notation when \<open>n\<close> is between \<open>-5\<close> and
  \<open>21\<close>, exponent notation otherwise.
\<close>

definition Number_toString :: "js_number \<Rightarrow> jsstring" where
  "Number_toString v =
     (case v of
        NaN \<Rightarrow> js ''NaN''
      | PosInfinity \<Rightarrow> js ''Infinity''
      | Finite x \<Rightarrow>
          if x = 0 then js ''0''
          else
            (let (s, k, n) = shortest_digits x;
                 ds = int_digits s
             in if - 5 \<le> n \<and> n \<le> 21 then
                  (if int k \<le> n then ds @ replicate (nat (n - int k)) 0x30
                   else if 0 < n then take (nat n) ds @ js ''.'' @ drop (nat n) ds
                   else js ''0.'' @ replicate (nat (- n)) 0x30 @ ds)
                else
                  (let e = n - 1;
                       exponent = (if e < 0 then js ''-'' else js ''+'') @ int_digits \<bar>e\<bar>
                   in if k = 1 then ds @ js ''e'' @ exponent
                      else take 1 ds @ js ''.'' @ drop 1 ds @ js ''e'' @ exponent)))"

section \<open>parseChapterNumber\<close>

text \<open>
  \<^verbatim>\<open>
  private parseChapterNumber(dname: string): string {
    if (!dname) return ""
    let cleaned = dname.replace(/^Vol\.\s*\S+\s+/i, '')
    if (cleaned.match(/^Chapter\s+Bonus/i)) {
      return "Chapter Bonus"
    }
    const chapterMatch = cleaned.match(/(?:Ch\.|Chapter)\s*(\d+(?:\.\d+)?)/i)
    if (chapterMatch && chapterMatch[1]) {
      const parsed = parseFloat(chapterMatch[1])
      return parsed.toString()
    }
    return dname
  }
  \<close>
  The capture group holds at least one digit, so \<open>chapterMatch[1]\<close> is never the empty
  string.
\<close>

definition parseChapterNumber :: "jsstring \<Rightarrow> jsstring" where
  "parseChapterNumber dname =
     (if dname = [] then []
      else
        (let cleaned = remove_volume dname
         in if is_bonus cleaned then js ''Chapter Bonus''
            else (case chapter_match cleaned of
                    Some num \<Rightarrow> Number_toString (parseFloat num)
                  | None \<Rightarrow> dname)))"

section \<open>Dates\<close>

text \<open>
  \<open>new Date(t).toISOString()\<close> for an integral time value \<open>t\<close> in milliseconds. A
  time value beyond \<open>8.64e15\<close> in absolute value makes an invalid date, on which
  \<open>toISOString\<close> throws a RangeError. Otherwise the result is
  \<open>YYYY-MM-DDTHH:mm:ss.sssZ\<close>, the year with a sign and six digits when it is not
  between 0 and 9999.
\<close>

datatype js_error = FetchFailed | RequestFailed nat | SyntaxError | TypeError | RangeError

definition pad_digits :: "nat \<Rightarrow> int \<Rightarrow> jsstring" where
  "pad_digits w n = replicate (w - length (int_digits n)) 0x30 @ int_digits n"

text \<open>Year, month and day of a day number counted from 1970-01-01.\<close>

definition civil_from_days :: "int \<Rightarrow> int \<times> int \<times> int" where
  "civil_from_days days =
     (let z = days + 719468;
          era = z div 146097;
          doe = z mod 146097;
          yoe = (doe - doe div 1460 + doe div 36524 - doe div 146096) div 365;
          doy = doe - (365 * yoe + yoe div 4 - yoe div 100);
          mp = (5 * doy + 2) div 153;
          d = doy - (153 * mp + 2) div 5 + 1;
          m = (if mp < 10 then mp + 3 else mp - 9);
          y = yoe + era * 400 + (if m \<le> 2 then 1 else 0)
      in (y, m, d))"

definition toISOString :: "int \<Rightarrow> js_error + jsstring" where
  "toISOString t =
     (if 8640000000000000 < \<bar>t\<bar> then Inl RangeError
      else
        (let (y, m, d) = civil_from_days (t div 86400000);
             ms = t mod 86400000;
             year = (if 0 \<le> y \<and> y \<le> 9999 then pad_digits 4 y
                     else (if y < 0 then js ''-'' else js ''+'') @ pad_digits 6 \<bar>y\<bar>)
         in Inr (year @ js ''-'' @ pad_digits 2 m @ js ''-'' @ pad_digits 2 d @
                 js ''T'' @ pad_digits 2 (ms div 3600000) @
                 js '':'' @ pad_digits 2 (ms div 60000 mod 60) @
                 js '':'' @ pad_digits 2 (ms div 1000 mod 60) @
                 js ''.'' @ pad_digits 3 (ms mod 1000) @ js ''Z'')))"

section \<open>Responses of the endpoint\<close>

text \<open>
  A response body is JSON of the shape that the three queries select. Every field may be
  missing or \<open>null\<close> (\<open>None\<close>), and so may an element of a list. Identifiers and
  texts are strings, the two dates are integral numbers of seconds.
\<close>

record search_data =
  sd_id :: "jsstring option"
  sd_name :: "jsstring option"
  sd_altNames :: "jsstring list option"
  sd_urlPath :: "jsstring option"
  sd_urlCoverOri :: "jsstring option"

record search_item =
  item_data :: "search_data option"

record search_comic =
  items :: "search_item option list option"

record user_data =
  user_name :: "jsstring option"

record user_node =
  user_node_data :: "user_data option"

record chapter_data =
  ch_id :: "jsstring option"
  ch_dname :: "jsstring option"
  ch_title :: "jsstring option"
  ch_dateCreate :: "int option"
  ch_dateModify :: "int option"
  ch_urlPath :: "jsstring option"
  ch_srcTitle :: "jsstring option"
  ch_userNode :: "user_node option"

record chapter_item =
  chapter_item_data :: "chapter_data option"

record image_file =
  urlList :: "jsstring list option"

record chapter_node_data =
  imageFile :: "image_file option"

record chapter_node =
  chapter_node_data :: "chapter_node_data option"

record gql_data =
  get_searchComic :: "search_comic option"
  get_comicChapterList :: "chapter_item option list option"
  get_chapterNode :: "chapter_node option"

record gql_result =
  result_data :: "gql_data option"

section \<open>The request\<close>

datatype query = PAGES_QUERY | CHAPTERS_QUERY | SEARCH_QUERY

text \<open>
  The variables of a request: \<open>{ select: { page, size, word } }\<close> for the search,
  \<open>{ id }\<close> for the two others.
\<close>

datatype variables = Select nat nat "jsstring option" | Id jsstring

record request =
  rq_url :: jsstring
  rq_method :: jsstring
  rq_headers :: "(jsstring \<times> jsstring) list"
  rq_query :: query
  rq_variables :: variables

text \<open>
  What \<open>fetch\<close> and \<open>response.json()\<close> do is the environment's choice: the
  request is rejected, or answered with a status and a body, which is malformed or parses
  to a value (\<open>None\<close> for \<open>null\<close>).
\<close>

datatype body = Malformed | Json "gql_result option"

datatype fetch_outcome = Rejected | Response nat body

type_synonym transport = "request \<Rightarrow> fetch_outcome"

text \<open>\<open>response.ok\<close>: the status is in the range 200 to 299.\<close>

definition response_ok :: "nat \<Rightarrow> bool" where
  "response_ok status \<longleftrightarrow> 200 \<le> status \<and> status \<le> 299"

text \<open>
  \<^verbatim>\<open>
  private async graphqlRequest(query: string, variables: any): Promise<any> {
    const response = await fetch(this.apiUrl, {
      method: 'POST',
      headers: this.DEFAULT_HEADERS,
      body: JSON.stringify({ query, variables }),
    })
    if (!response.ok) {
      throw new Error(`GraphQL request failed with status ${response.status}`)
    }
    return await response.json()
  }
  \<close>
  The result of an asynchronous function is \<open>Inr\<close> of the value its promise is
  fulfilled with, or \<open>Inl\<close> of the error it is rejected with.
\<close>

definition request_of :: "query \<Rightarrow> variables \<Rightarrow> request" where
  "request_of q vars =
     \<lparr>rq_url = apiUrl, rq_method = js ''POST'', rq_headers = DEFAULT_HEADERS,
      rq_query = q, rq_variables = vars\<rparr>"

definition graphqlRequest :: "transport \<Rightarrow> query \<Rightarrow> variables \<Rightarrow> js_error + gql_result option" where
  "graphqlRequest fetch q vars =
     (case fetch (request_of q vars) of
        Rejected \<Rightarrow> Inl FetchFailed
      | Response status b \<Rightarrow>
          if \<not> response_ok status then Inl (RequestFailed status)
          else (case b of Malformed \<Rightarrow> Inl SyntaxError | Json result \<Rightarrow> Inr result))"

text \<open>\<open>a || b\<close> on strings that may be missing: a missing or empty string is falsy.\<close>

definition truthy :: "jsstring option \<Rightarrow> bool" where
  "truthy a \<longleftrightarrow> (case a of None \<Rightarrow> False | Some s \<Rightarrow> s \<noteq> [])"

definition or_else :: "jsstring option \<Rightarrow> jsstring option \<Rightarrow> jsstring option" where
  "or_else a b = (if truthy a then a else b)"

text \<open>\<open>a || "..."\<close> with a string literal on the right: the result is a string.\<close>

definition or_string :: "jsstring option \<Rightarrow> jsstring \<Rightarrow> jsstring" where
  "or_string a b = (case a of None \<Rightarrow> b | Some s \<Rightarrow> if s = [] then b else s)"

section \<open>search\<close>

record QueryOptions =
  qo_query :: "jsstring option"

record SearchResult =
  sr_id :: "jsstring option"
  sr_title :: jsstring
  sr_synonyms :: "jsstring list option"
  sr_image :: "jsstring option"
  sr_year :: "nat option"

text \<open>
  \<^verbatim>\<open>
      results.push({
        id: data.id,
        title: data.name || "Unknown",
        synonyms: data.altNames || undefined,
        image: this.buildUrl(data.urlCoverOri || "") || undefined,
        year: undefined,
      })
  \<close>
\<close>

definition search_image :: "jsstring option \<Rightarrow> jsstring option" where
  "search_image urlCoverOri =
     or_else (Some (buildUrl (or_string urlCoverOri []))) None"

definition search_entry :: "search_data \<Rightarrow> SearchResult" where
  "search_entry d =
     \<lparr>sr_id = sd_id d,
      sr_title = or_string (sd_name d) (js ''Unknown''),
      sr_synonyms = sd_altNames d,
      sr_image = search_image (sd_urlCoverOri d),
      sr_year = None\<rparr>"

text \<open>
  \<^verbatim>\<open>
      for (const item of items) {
        const data = item.data
        if (!data) continue
        results.push({ ... })
      }
      return results
  \<close>
  Reading \<open>item.data\<close> of an element that is \<open>null\<close> throws a TypeError.
\<close>

fun search_loop :: "search_item option list \<Rightarrow> SearchResult list \<Rightarrow> js_error + SearchResult list" where
  "search_loop [] results = Inr results"
| "search_loop (None # rest) results = Inl TypeError"
| "search_loop (Some item # rest) results =
     (case item_data item of
        None \<Rightarrow> search_loop rest results
      | Some d \<Rightarrow> search_loop rest (results @ [search_entry d]))"

text \<open>\<open>result?.data?.get_searchComic?.items || []\<close>\<close>

definition search_items :: "gql_result option \<Rightarrow> search_item option list" where
  "search_items result =
     (case Option.bind (Option.bind (Option.bind result result_data) get_searchComic) items of
        None \<Rightarrow> []
      | Some xs \<Rightarrow> xs)"

text \<open>The body of the \<open>try\<close> block of \<open>search\<close>.\<close>

definition search_try :: "transport \<Rightarrow> QueryOptions \<Rightarrow> js_error + SearchResult list" where
  "search_try fetch opts =
     (case graphqlRequest fetch SEARCH_QUERY (Select 1 24 (or_else (qo_query opts) None)) of
        Inl e \<Rightarrow> Inl e
      | Inr result \<Rightarrow> search_loop (search_items result) [])"

text \<open>
  \<^verbatim>\<open>
  async search(opts: QueryOptions): Promise<SearchResult[]> {
    try { ... } catch (error) {
      console.error('Search failed:', error)
      return []
    }
  }
  \<close>
\<close>

definition search :: "transport \<Rightarrow> QueryOptions \<Rightarrow> js_error + SearchResult list" where
  "search fetch opts =
     (case search_try fetch opts of Inl e \<Rightarrow> Inr [] | Inr results \<Rightarrow> Inr results)"

section \<open>findChapters\<close>

record ChapterDetails =
  cd_id :: "jsstring option"
  cd_url :: jsstring
  cd_title :: "jsstring option"
  cd_chapter :: jsstring
  cd_index :: nat
  cd_language :: "jsstring option"
  cd_scanlator :: "jsstring option"
  cd_updatedAt :: "jsstring option"

text \<open>
  \<open>data.dateModify || data.dateCreate\<close>: a number is falsy when it is zero, and then
  the right operand is the value, whatever it is.
\<close>

definition chapter_timestamp :: "chapter_data \<Rightarrow> int option" where
  "chapter_timestamp d =
     (case ch_dateModify d of
        None \<Rightarrow> ch_dateCreate d
      | Some t \<Rightarrow> if t = 0 then ch_dateCreate d else Some t)"

text \<open>\<open>timestamp ? new Date(timestamp * 1000).toISOString() : undefined\<close>\<close>

definition chapter_updatedAt :: "int option \<Rightarrow> js_error + jsstring option" where
  "chapter_updatedAt timestamp =
     (case timestamp of
        None \<Rightarrow> Inr None
      | Some t \<Rightarrow>
          if t = 0 then Inr None
          else (case toISOString (t * 1000) of Inl e \<Rightarrow> Inl e | Inr s \<Rightarrow> Inr (Some s)))"

text \<open>\<open>data.userNode?.data?.name || data.srcTitle || undefined\<close>\<close>

definition chapter_scanlator :: "chapter_data \<Rightarrow> jsstring option" where
  "chapter_scanlator d =
     or_else (or_else (Option.bind (Option.bind (ch_userNode d) user_node_data) user_name)
                (ch_srcTitle d)) None"

text \<open>
  \<^verbatim>\<open>
        const timestamp = data.dateModify || data.dateCreate
        const updatedAt = timestamp ? new Date(timestamp * 1000).toISOString() : undefined
        const scanlator = data.userNode?.data?.name || data.srcTitle || undefined
        chapters.push({
          id: data.id,
          url: this.buildUrl(data.urlPath || ""),
          title: data.title,
          chapter: this.parseChapterNumber(data.dname),
          index: chapters.length,
          language: undefined,
          scanlator,
          updatedAt,
        })
  \<close>
  The entry for one record, given the number of entries made so far. A missing \<open>dname\<close>
  is falsy, so that \<open>parseChapterNumber\<close> returns the empty string for it.
\<close>

definition chapter_entry :: "chapter_data \<Rightarrow> nat \<Rightarrow> js_error + ChapterDetails" where
  "chapter_entry d n =
     (case chapter_updatedAt (chapter_timestamp d) of
        Inl e \<Rightarrow> Inl e
      | Inr updatedAt \<Rightarrow>
          Inr \<lparr>cd_id = ch_id d,
               cd_url = buildUrl (or_string (ch_urlPath d) []),
               cd_title = ch_title d,
               cd_chapter = (case ch_dname d of None \<Rightarrow> [] | Some dname \<Rightarrow> parseChapterNumber dname),
               cd_index = n,
               cd_language = None,
               cd_scanlator = chapter_scanlator d,
               cd_updatedAt = updatedAt\<rparr>)"

text \<open>
  \<^verbatim>\<open>
      for (const chapterData of chapterList) {
        const data = chapterData.data
        if (!data) continue
        ...
        chapters.push({ ... })
      }
      return chapters
  \<close>
\<close>

fun chapters_loop :: "chapter_item option list \<Rightarrow> ChapterDetails list \<Rightarrow> js_error + ChapterDetails list" where
  "chapters_loop [] chapters = Inr chapters"
| "chapters_loop (None # rest) chapters = Inl TypeError"
| "chapters_loop (Some chapterData # rest) chapters =
     (case chapter_item_data chapterData of
        None \<Rightarrow> chapters_loop rest chapters
      | Some d \<Rightarrow>
          (case chapter_entry d (length chapters) of
             Inl e \<Rightarrow> Inl e
           | Inr entry \<Rightarrow> chapters_loop rest (chapters @ [entry])))"

text \<open>\<open>result?.data?.get_comicChapterList || []\<close>\<close>

definition chapter_list :: "gql_result option \<Rightarrow> chapter_item option list" where
  "chapter_list result =
     (case Option.bind (Option.bind result result_data) get_comicChapterList of
        None \<Rightarrow> []
      | Some xs \<Rightarrow> xs)"

definition findChapters_try :: "transport \<Rightarrow> jsstring \<Rightarrow> js_error + ChapterDetails list" where
  "findChapters_try fetch mangaId =
     (case graphqlRequest fetch CHAPTERS_QUERY (Id mangaId) of
        Inl e \<Rightarrow> Inl e
      | Inr result \<Rightarrow> chapters_loop (chapter_list result) [])"

definition findChapters :: "transport \<Rightarrow> jsstring \<Rightarrow> js_error + ChapterDetails list" where
  "findChapters fetch mangaId =
     (case findChapters_try fetch mangaId of Inl e \<Rightarrow> Inr [] | Inr chapters \<Rightarrow> Inr chapters)"

section \<open>findChapterPages\<close>

record ChapterPage =
  cp_url :: jsstring
  cp_index :: nat
  cp_headers :: "(jsstring \<times> jsstring) list"

text \<open>\<open>result?.data?.get_chapterNode?.data?.imageFile?.urlList || []\<close>\<close>

definition page_urls :: "gql_result option \<Rightarrow> jsstring list" where
  "page_urls result =
     (case Option.bind (Option.bind (Option.bind (Option.bind (Option.bind result result_data)
              get_chapterNode) chapter_node_data) imageFile) urlList of
        None \<Rightarrow> []
      | Some xs \<Rightarrow> xs)"

text \<open>
  \<^verbatim>\<open>
      const pages: ChapterPage[] = urlList.map((url: string, index: number) => ({
        url,
        index,
        headers: this.DEFAULT_HEADERS,
      }))
  \<close>
\<close>

definition findChapterPages_try :: "transport \<Rightarrow> jsstring \<Rightarrow> js_error + ChapterPage list" where
  "findChapterPages_try fetch chapterId =
     (case graphqlRequest fetch PAGES_QUERY (Id chapterId) of
        Inl e \<Rightarrow> Inl e
      | Inr result \<Rightarrow>
          Inr (map (\<lambda>(index, url). \<lparr>cp_url = url, cp_index = index, cp_headers = DEFAULT_HEADERS\<rparr>)
                 (enumerate 0 (page_urls result))))"

definition findChapterPages :: "transport \<Rightarrow> jsstring \<Rightarrow> js_error + ChapterPage list" where
  "findChapterPages fetch chapterId =
     (case findChapterPages_try fetch chapterId of Inl e \<Rightarrow> Inr [] | Inr pages \<Rightarrow> Inr pages)"

section \<open>Notions used in the statements\<close>

text \<open>The \<open>data\<close> objects of the list elements that have one, in the order of the list.\<close>

definition data_items :: "search_item option list \<Rightarrow> search_data list" where
  "data_items xs = List.map_filter (\<lambda>i. Option.bind i item_data) xs"

definition data_records :: "chapter_item option list \<Rightarrow> chapter_data list" where
  "data_records xs = List.map_filter (\<lambda>i. Option.bind i chapter_item_data) xs"

text \<open>
  The positions, in the list as received, of the elements that have a \<open>data\<close> object.
\<close>

definition received_positions :: "chapter_item option list \<Rightarrow> nat list" where
  "received_positions xs =
     filter (\<lambda>i. Option.bind (xs ! i) chapter_item_data \<noteq> None) [0..<length xs]"

text \<open>
  The time stamp of a record, in seconds, is one that \<open>Date\<close> can hold in milliseconds.
\<close>

definition timestamp_in_range :: "chapter_data \<Rightarrow> bool" where
  "timestamp_in_range d \<longleftrightarrow>
     (case chapter_timestamp d of None \<Rightarrow> True | Some t \<Rightarrow> \<bar>t\<bar> \<le> 8640000000000)"

text \<open>
  The loop of \<open>findChapters\<close> runs to its end on a list: no element is \<open>null\<close> and
  no time stamp is out of range.
\<close>

definition well_formed :: "chapter_item option list \<Rightarrow> bool" where
  "well_formed xs \<longleftrightarrow> None \<notin> set xs \<and> list_all timestamp_in_range (data_records xs)"

text \<open>
  A transport failure: the request is rejected, the status is not a success, or the body
  is not JSON.
\<close>

definition failed :: "fetch_outcome \<Rightarrow> bool" where
  "failed outcome \<longleftrightarrow>
     (case outcome of
        Rejected \<Rightarrow> True
      | Response status b \<Rightarrow> \<not> response_ok status \<or> b = Malformed)"

text \<open>Two strings are equal up to the case of their ASCII letters.\<close>

definition ci_equal :: "jsstring \<Rightarrow> jsstring \<Rightarrow> bool" where
  "ci_equal a b \<longleftrightarrow> map canonicalize a = map canonicalize b"

text \<open>
  A volume prefix: \<open>Vol.\<close> in any case, a token of at least one code unit that is not
  white space, and at least one code unit of white space.
\<close>

definition volume_prefix :: "jsstring \<Rightarrow> bool" where
  "volume_prefix v \<longleftrightarrow>
     (let tok = takeWhile (\<lambda>c. \<not> is_ws c) (drop 4 v);
          w = dropWhile (\<lambda>c. \<not> is_ws c) (drop 4 v)
      in ci_equal (take 4 v) (js ''Vol.'') \<and> tok \<noteq> [] \<and> w \<noteq> [] \<and> list_all is_ws w)"

text \<open>
  The canonical decimal rendering of a number written with the integer digits \<open>ip\<close> and
  the fraction digits \<open>fp\<close>: no leading zeros in the integer part (one zero when nothing
  else is left), no trailing zeros in the fraction, and no dot when no fraction is left.
\<close>

definition canonical_decimal :: "jsstring \<Rightarrow> jsstring \<Rightarrow> jsstring" where
  "canonical_decimal ip fp =
     (let i = dropWhile (\<lambda>c. c = 0x30) ip;
          f = rev (dropWhile (\<lambda>c. c = 0x30) (rev fp))
      in (if i = [] then js ''0'' else i) @ (if f = [] then [] else js ''.'' @ f))"

text \<open>
  The number written with the integer digits \<open>ip\<close> and the fraction digits \<open>fp\<close>: its
  text, its value, and its significant digits (the digits without the leading and the
  trailing zeros).
\<close>

definition number_text :: "jsstring \<Rightarrow> jsstring \<Rightarrow> jsstring" where
  "number_text ip fp = (if fp = [] then ip else ip @ js ''.'' @ fp)"

definition decimal_value :: "jsstring \<Rightarrow> jsstring \<Rightarrow> rat" where
  "decimal_value ip fp = of_int (digits_value ip) + of_int (digits_value fp) / 10 ^ length fp"

definition significant :: "jsstring \<Rightarrow> jsstring \<Rightarrow> jsstring" where
  "significant ip fp =
     rev (dropWhile (\<lambda>c. c = 0x30) (rev (dropWhile (\<lambda>c. c = 0x30) (ip @ fp))))"

text \<open>
  Rounding a positive number to the nearest value with a significand of 53 bits, ties to
  even: \<open>to_double\<close> without the subnormal numbers and without the overflow.
\<close>

definition binary64_round :: "rat \<Rightarrow> rat" where
  "binary64_round v =
     of_int (round_half_even (v / 2 powi (ilog 2 v - 52))) * 2 powi (ilog 2 v - 52)"

text \<open>A range of numbers on which \<open>to_double\<close> is \<open>binary64_round\<close>.\<close>

definition in_range :: "rat \<Rightarrow> bool" where
  "in_range v \<longleftrightarrow> 10 powi (- 10) \<le> v \<and> v \<le> 10 powi 30"

text \<open>A number with at most fifteen significant decimal digits.\<close>

definition few_digits :: "rat \<Rightarrow> bool" where
  "few_digits v \<longleftrightarrow> (\<exists>m q. 0 < m \<and> m \<le> 10 ^ 15 \<and> v = of_int m * 10 powi q)"

text \<open>
  The number \<open>x\<close> has the \<open>k\<close> decimal digits \<open>s\<close>, the last one not zero, and the
  decimal point after the digit \<open>n\<close>.
\<close>

definition dec_rep :: "int \<Rightarrow> nat \<Rightarrow> int \<Rightarrow> rat \<Rightarrow> bool" where
  "dec_rep s k n x \<longleftrightarrow>
     0 < k \<and> 10 ^ (k - 1) \<le> s \<and> s < 10 ^ k \<and> \<not> 10 dvd s \<and> x = of_int s * 10 powi (n - int k)"

section \<open>Example responses\<close>

text \<open>A transport that answers every request with status 200 and the given data.\<close>

definition respond :: "gql_data \<Rightarrow> transport" where
  "respond d = (\<lambda>req. Response 200 (Json (Some \<lparr>result_data = Some d\<rparr>)))"

definition search_response :: "search_item option list \<Rightarrow> gql_data" where
  "search_response xs =
     \<lparr>get_searchComic = Some \<lparr>items = Some xs\<rparr>, get_comicChapterList = None,
      get_chapterNode = None\<rparr>"

definition chapters_response :: "chapter_item option list \<Rightarrow> gql_data" where
  "chapters_response xs =
     \<lparr>get_searchComic = None, get_comicChapterList = Some xs, get_chapterNode = None\<rparr>"

definition pages_response :: "jsstring list \<Rightarrow> gql_data" where
  "pages_response us =
     \<lparr>get_searchComic = None, get_comicChapterList = None,
      get_chapterNode = Some \<lparr>chapter_node_data = Some \<lparr>imageFile = Some \<lparr>urlList = Some us\<rparr>\<rparr>\<rparr>\<rparr>"

text \<open>A search item with an identifier, a name and a cover.\<close>

definition search_item_of :: "string \<Rightarrow> string \<Rightarrow> string \<Rightarrow> search_item option" where
  "search_item_of i n c =
     Some \<lparr>item_data = Some \<lparr>sd_id = Some (js i), sd_name = Some (js n), sd_altNames = None,
       sd_urlPath = None, sd_urlCoverOri = Some (js c)\<rparr>\<rparr>"

text \<open>
  A chapter record with an identifier, a display name, and the two dates; it has no title,
  path, source title or user.
\<close>

definition chapter_record :: "string \<Rightarrow> string \<Rightarrow> int option \<Rightarrow> int option \<Rightarrow> chapter_data" where
  "chapter_record i n m c =
     \<lparr>ch_id = Some (js i), ch_dname = Some (js n), ch_title = None, ch_dateCreate = c,
      ch_dateModify = m, ch_urlPath = None, ch_srcTitle = None, ch_userNode = None\<rparr>"

definition chapter_item_of :: "chapter_data \<Rightarrow> chapter_item option" where
  "chapter_item_of d = Some \<lparr>chapter_item_data = Some d\<rparr>"

text \<open>A list element without a \<open>data\<close> object.\<close>

definition no_data :: "chapter_item option" where
  "no_data = Some \<lparr>chapter_item_data = None\<rparr>"

section \<open>Lemmas about the operations\<close>

subsection \<open>Requests and loops\<close>

lemma graphqlRequest_ok:
  "fetch (request_of q vars) = Response status (Json result) \<Longrightarrow> response_ok status \<Longrightarrow>
     graphqlRequest fetch q vars = Inr result"
  by (simp add: graphqlRequest_def)

lemma graphqlRequest_failed:
  "failed (fetch (request_of q vars)) \<Longrightarrow> \<exists>e. graphqlRequest fetch q vars = Inl e"
  by (auto simp: graphqlRequest_def failed_def split: fetch_outcome.splits body.splits)

lemma search_loop_eq:
  "search_loop xs acc =
     (if None \<in> set xs then Inl TypeError
      else Inr (acc @ map search_entry (data_items xs)))"
proof (induction xs acc rule: search_loop.induct)
  case (1 results)
  then show ?case by (simp add: data_items_def)
next
  case (2 rest results)
  then show ?case by simp
next
  case (3 item rest results)
  then show ?case by (cases "item_data item") (auto simp: data_items_def)
qed

lemma toISOString_out_of_range:
  "8640000000000000 < \<bar>t\<bar> \<Longrightarrow> toISOString t = Inl RangeError"
  by (simp add: toISOString_def)

lemma toISOString_in_range:
  "\<bar>t\<bar> \<le> 8640000000000000 \<Longrightarrow> \<exists>s. toISOString t = Inr s"
  by (simp add: toISOString_def Let_def split: prod.splits)

lemma chapter_updatedAt_ok:
  "(\<exists>u. chapter_updatedAt ts = Inr u) \<longleftrightarrow> (case ts of None \<Rightarrow> True | Some t \<Rightarrow> \<bar>t\<bar> \<le> 8640000000000)"
proof (cases ts)
  case None
  then show ?thesis by (simp add: chapter_updatedAt_def)
next
  case (Some t)
  show ?thesis
  proof (cases "\<bar>t\<bar> \<le> 8640000000000")
    case True
    then have "\<bar>t * 1000\<bar> \<le> 8640000000000000" by (simp add: abs_mult)
    from toISOString_in_range [OF this] obtain s where "toISOString (t * 1000) = Inr s" ..
    with Some True show ?thesis by (simp add: chapter_updatedAt_def)
  next
    case False
    then have "8640000000000000 < \<bar>t * 1000\<bar>" by (simp add: abs_mult)
    from toISOString_out_of_range [OF this] False Some show ?thesis
      by (auto simp: chapter_updatedAt_def)
  qed
qed

lemma chapter_entry_ok:
  "(\<exists>e. chapter_entry d n = Inr e) \<longleftrightarrow> timestamp_in_range d"
proof -
  have "(\<exists>e. chapter_entry d n = Inr e) \<longleftrightarrow> (\<exists>u. chapter_updatedAt (chapter_timestamp d) = Inr u)"
    by (auto simp: chapter_entry_def split: sum.splits)
  then show ?thesis by (simp add: chapter_updatedAt_ok timestamp_in_range_def)
qed

lemma chapter_entry_fields:
  assumes "chapter_entry d n = Inr e"
  shows "cd_id e = ch_id d" and "cd_title e = ch_title d" and "cd_index e = n"
    and "chapter_updatedAt (chapter_timestamp d) = Inr (cd_updatedAt e)"
  using assms by (auto simp: chapter_entry_def split: sum.splits)

lemma chapters_loop_Inr:
  "chapters_loop xs acc = Inr out \<Longrightarrow>
     well_formed xs \<and>
     (\<exists>es. out = acc @ es \<and> length es = length (data_records xs) \<and>
        (\<forall>i<length es. chapter_entry (data_records xs ! i) (length acc + i) = Inr (es ! i)))"
proof (induction xs acc arbitrary: out rule: chapters_loop.induct)
  case (1 chapters)
  then show ?case by (simp add: well_formed_def data_records_def)
next
  case (2 rest chapters)
  then show ?case by simp
next
  case (3 chapterData rest chapters)
  show ?case
  proof (cases "chapter_item_data chapterData")
    case None
    with 3 show ?thesis by (simp add: well_formed_def data_records_def)
  next
    case (Some d)
    with "3.prems" obtain entry where e: "chapter_entry d (length chapters) = Inr entry"
      and l: "chapters_loop rest (chapters @ [entry]) = Inr out"
      by (auto split: sum.splits)
    from "3.IH"(2) [OF Some e l] obtain es where wf: "well_formed rest"
      and out: "out = (chapters @ [entry]) @ es"
      and len: "length es = length (data_records rest)"
      and all: "\<forall>i<length es. chapter_entry (data_records rest ! i) (length (chapters @ [entry]) + i) = Inr (es ! i)"
      by blast
    have dr: "data_records (Some chapterData # rest) = d # data_records rest"
      using Some by (simp add: data_records_def)
    from e have "timestamp_in_range d" using chapter_entry_ok by blast
    with wf dr have 1: "well_formed (Some chapterData # rest)"
      by (simp add: well_formed_def)
    have 2: "out = chapters @ (entry # es)" using out by simp
    have 3: "length (entry # es) = length (data_records (Some chapterData # rest))"
      using len dr by simp
    have 4: "\<forall>i<length (entry # es).
        chapter_entry (data_records (Some chapterData # rest) ! i) (length chapters + i) = Inr ((entry # es) ! i)"
    proof (intro allI impI)
      fix i assume "i < length (entry # es)"
      then show "chapter_entry (data_records (Some chapterData # rest) ! i) (length chapters + i) = Inr ((entry # es) ! i)"
        using all e dr by (cases i) auto
    qed
    from 1 2 3 4 show ?thesis by blast
  qed
qed

lemma chapters_loop_well_formed:
  "well_formed xs \<Longrightarrow> \<exists>out. chapters_loop xs acc = Inr out"
proof (induction xs acc rule: chapters_loop.induct)
  case (1 chapters)
  then show ?case by simp
next
  case (2 rest chapters)
  then show ?case by (simp add: well_formed_def)
next
  case (3 chapterData rest chapters)
  show ?case
  proof (cases "chapter_item_data chapterData")
    case None
    with 3 show ?thesis by (simp add: well_formed_def data_records_def)
  next
    case (Some d)
    with "3.prems" have "timestamp_in_range d" and wf: "well_formed rest"
      by (simp_all add: well_formed_def data_records_def)
    then obtain entry where e: "chapter_entry d (length chapters) = Inr entry"
      using chapter_entry_ok by blast
    from "3.IH"(2) [OF Some e wf] Some e show ?thesis by simp
  qed
qed

lemma search_ok_eq:
  assumes "fetch (request_of SEARCH_QUERY (Select 1 24 (or_else (qo_query opts) None))) = Response status (Json result)"
    and "response_ok status"
  shows "search fetch opts =
     Inr (if None \<in> set (search_items result) then []
          else map search_entry (data_items (search_items result)))"
proof -
  from assms have "graphqlRequest fetch SEARCH_QUERY (Select 1 24 (or_else (qo_query opts) None)) = Inr result"
    by (rule graphqlRequest_ok)
  then show ?thesis by (simp add: search_def search_try_def search_loop_eq)
qed

lemma findChapters_ok:
  assumes "fetch (request_of CHAPTERS_QUERY (Id mangaId)) = Response status (Json result)"
    and "response_ok status"
    and "well_formed (chapter_list result)"
  shows "\<exists>out. findChapters fetch mangaId = Inr out \<and> chapters_loop (chapter_list result) [] = Inr out"
proof -
  from chapters_loop_well_formed [OF assms(3)] obtain out
    where "chapters_loop (chapter_list result) [] = Inr out" ..
  moreover from assms(1,2) have "graphqlRequest fetch CHAPTERS_QUERY (Id mangaId) = Inr result"
    by (rule graphqlRequest_ok)
  ultimately show ?thesis
    by (simp add: findChapters_def findChapters_try_def)
qed

lemma findChapters_Inr:
  "\<exists>out. findChapters fetch mangaId = Inr out"
  by (simp add: findChapters_def split: sum.splits)

lemma findChapters_cases:
  assumes "findChapters fetch mangaId = Inr out"
  shows "out = [] \<or> (\<exists>result. graphqlRequest fetch CHAPTERS_QUERY (Id mangaId) = Inr result \<and> chapters_loop (chapter_list result) [] = Inr out)"
  using assms by (auto simp: findChapters_def findChapters_try_def split: sum.splits)

lemma findChapters_entries:
  assumes "fetch (request_of CHAPTERS_QUERY (Id mangaId)) = Response status (Json result)"
    and "response_ok status"
    and "findChapters fetch mangaId = Inr out"
  shows "(if well_formed (chapter_list result)
          then length out = length (data_records (chapter_list result))
          else out = []) \<and>
         (\<forall>i<length out. chapter_entry (data_records (chapter_list result) ! i) i = Inr (out ! i))"
proof -
  from assms(1,2) have g: "graphqlRequest fetch CHAPTERS_QUERY (Id mangaId) = Inr result"
    by (rule graphqlRequest_ok)
  show ?thesis
  proof (cases "chapters_loop (chapter_list result) []")
    case (Inl e)
    with g assms(3) have "out = []" by (simp add: findChapters_def findChapters_try_def)
    moreover have "\<not> well_formed (chapter_list result)"
      using chapters_loop_well_formed [of "chapter_list result" "[]"] Inl by auto
    ultimately show ?thesis by simp
  next
    case (Inr out')
    with g assms(3) have "out' = out" by (simp add: findChapters_def findChapters_try_def)
    with Inr chapters_loop_Inr [of "chapter_list result" "[]" out] show ?thesis by auto
  qed
qed

lemma findChapters_map:
  assumes "fetch (request_of CHAPTERS_QUERY (Id mangaId)) = Response status (Json result)"
    and "response_ok status"
    and "findChapters fetch mangaId = Inr out"
    and f: "\<And>d n e. chapter_entry d n = Inr e \<Longrightarrow> f e = g d"
  shows "map f out = map g (take (length out) (data_records (chapter_list result)))"
proof -
  let ?ds = "data_records (chapter_list result)"
  from findChapters_entries [OF assms(1-3)]
  have len: "if well_formed (chapter_list result) then length out = length ?ds else out = []"
    and ent: "\<forall>i<length out. chapter_entry (?ds ! i) i = Inr (out ! i)"
    by simp_all
  from len have le: "length out \<le> length ?ds" by (simp split: if_splits)
  show ?thesis
  proof (rule nth_equalityI)
    show "length (map f out) = length (map g (take (length out) ?ds))"
      using le by simp
  next
    fix i assume "i < length (map f out)"
    then have i: "i < length out" by simp
    with ent have "chapter_entry (?ds ! i) i = Inr (out ! i)" by simp
    from f [OF this] i le
    show "map f out ! i = map g (take (length out) ?ds) ! i" by simp
  qed
qed

lemma chapters_loop_index:
  "chapters_loop xs acc = Inr out \<Longrightarrow> map cd_index acc = [0..<length acc] \<Longrightarrow>
     map cd_index out = [0..<length out]"
proof (induction xs acc arbitrary: out rule: chapters_loop.induct)
  case (1 chapters)
  then show ?case by simp
next
  case (2 rest chapters)
  then show ?case by simp
next
  case (3 chapterData rest chapters)
  show ?case
  proof (cases "chapter_item_data chapterData")
    case None
    with 3 show ?thesis by simp
  next
    case (Some d)
    with "3.prems" obtain entry where e: "chapter_entry d (length chapters) = Inr entry"
      and l: "chapters_loop rest (chapters @ [entry]) = Inr out"
      by (auto split: sum.splits)
    from chapter_entry_fields(3) [OF e] "3.prems"(2)
    have "map cd_index (chapters @ [entry]) = [0..<length (chapters @ [entry])]" by simp
    from "3.IH"(2) [OF Some e l this] show ?thesis .
  qed
qed

lemma findChapters_index:
  assumes "findChapters fetch mangaId = Inr out"
  shows "map cd_index out = [0..<length out]"
proof -
  from findChapters_cases [OF assms] show ?thesis
  proof
    assume "out = []" then show ?thesis by simp
  next
    assume "\<exists>result. graphqlRequest fetch CHAPTERS_QUERY (Id mangaId) = Inr result \<and>
      chapters_loop (chapter_list result) [] = Inr out"
    then obtain result where "chapters_loop (chapter_list result) [] = Inr out" by blast
    from chapters_loop_index [OF this] show ?thesis by simp
  qed
qed

subsection \<open>The example transport\<close>

lemma respond_request:
  "respond d (request_of q vars) = Response 200 (Json (Some \<lparr>result_data = Some d\<rparr>))"
  by (simp add: respond_def)

lemma ok_200: "response_ok 200"
  by (simp add: response_ok_def)

lemma chapter_list_response:
  "chapter_list (Some \<lparr>result_data = Some (chapters_response xs)\<rparr>) = xs"
  by (simp add: chapter_list_def chapters_response_def)

lemma graphqlRequest_respond:
  "graphqlRequest (respond d) q vars = Inr (Some \<lparr>result_data = Some d\<rparr>)"
  by (simp add: graphqlRequest_def respond_def response_ok_def)

lemma findChapters_respond:
  "findChapters (respond (chapters_response xs)) mangaId =
     (case chapters_loop xs [] of Inl e \<Rightarrow> Inr [] | Inr chapters \<Rightarrow> Inr chapters)"
  by (simp add: findChapters_def findChapters_try_def graphqlRequest_respond chapter_list_response)


section \<open>Lemmas about the regular expressions\<close>

subsection \<open>Code units and literal patterns\<close>

lemma canonicalize_C: "canonicalize x = 0x43 \<longleftrightarrow> x = 0x43 \<or> x = 0x63"
  unfolding canonicalize_def by auto

lemma not_ws_C: "canonicalize x = 0x43 \<Longrightarrow> \<not> is_ws x"
  by (auto simp: canonicalize_C is_ws_def)

lemma digit_not_ws: "is_digit x \<Longrightarrow> \<not> is_ws x"
  by (auto simp: is_digit_def is_ws_def word_le_nat_alt)

lemma ci_equal_length: "ci_equal a b \<Longrightarrow> length a = length b"
  unfolding ci_equal_def using map_eq_imp_length_eq by blast

lemma match_ci_append:
  assumes "ci_equal a pat"
  shows "match_ci pat (a @ r) = Some r"
proof -
  from assms have "length a = length pat" by (rule ci_equal_length)
  with assms show ?thesis by (simp add: match_ci_def ci_equal_def)
qed

lemma match_ci_hd:
  "match_ci pat s = Some r \<Longrightarrow> pat \<noteq> [] \<Longrightarrow> s \<noteq> [] \<and> canonicalize (hd s) = canonicalize (hd pat)"
  by (cases s; cases pat) (auto simp: match_ci_def split: if_splits)

lemma match_ci_suffix: "match_ci pat s = Some r \<Longrightarrow> set r \<subseteq> set s"
  by (auto simp: match_ci_def split: if_splits dest: in_set_dropD)

lemma ci_equal_hd:
  "ci_equal a pat \<Longrightarrow> pat \<noteq> [] \<Longrightarrow> a \<noteq> [] \<and> canonicalize (hd a) = canonicalize (hd pat)"
  by (cases a; cases pat) (auto simp: ci_equal_def)

lemma hd_Chapter: "canonicalize (hd (js ''Chapter'')) = 0x43"
  by (simp add: js_def canonicalize_def)

lemma hd_Ch: "canonicalize (hd (js ''Ch.'')) = 0x43"
  by (simp add: js_def canonicalize_def)

lemma hd_Bonus: "canonicalize (hd (js ''Bonus'')) = 0x42"
  by (simp add: js_def canonicalize_def)

lemma hd_Vol: "canonicalize (hd (js ''Vol.'')) = 0x56"
  by (simp add: js_def canonicalize_def)

lemma not_ws_B: "canonicalize x = 0x42 \<Longrightarrow> \<not> is_ws x"
  unfolding canonicalize_def is_ws_def by (auto split: if_splits)

subsection \<open>Runs of white space\<close>

lemma dropWhile_ws_run:
  "list_all is_ws w \<Longrightarrow> r \<noteq> [] \<Longrightarrow> \<not> is_ws (hd r) \<Longrightarrow> dropWhile is_ws (w @ r) = r"
  by (induction w) (auto simp: neq_Nil_conv)

lemma dropWhile_ws_run_Nil:
  "list_all is_ws w \<Longrightarrow> dropWhile is_ws w = []"
  by (induction w) auto

lemma takeWhile_ws_run:
  "w \<noteq> [] \<Longrightarrow> list_all is_ws w \<Longrightarrow> takeWhile is_ws (w @ r) \<noteq> []"
  by (cases w) auto

subsection \<open>The volume prefix\<close>

lemma remove_volume_no_prefix:
  "s = [] \<or> canonicalize (hd s) \<noteq> 0x56 \<Longrightarrow> remove_volume s = s"
proof (cases "match_ci (js ''Vol.'') s")
  case None
  then show ?thesis by (simp add: remove_volume_def)
next
  case (Some r)
  assume a: "s = [] \<or> canonicalize (hd s) \<noteq> 0x56"
  have "js ''Vol.'' \<noteq> []" by (simp add: js_def)
  from match_ci_hd [OF Some this] a hd_Vol show ?thesis by simp
qed

lemma remove_volume_prefix:
  assumes v: "volume_prefix v" and r: "r \<noteq> []" "\<not> is_ws (hd r)"
  shows "remove_volume (v @ r) = r"
proof -
  define t where "t = drop 4 v"
  define tok where "tok = takeWhile (\<lambda>c. \<not> is_ws c) t"
  define w where "w = dropWhile (\<lambda>c. \<not> is_ws c) t"
  from v have ci: "ci_equal (take 4 v) (js ''Vol.'')" and tok: "tok \<noteq> []" and w: "w \<noteq> []"
    and ws: "list_all is_ws w"
    by (simp_all add: volume_prefix_def Let_def t_def tok_def w_def)
  have t: "t = tok @ w" by (simp add: tok_def w_def)
  have v_eq: "v @ r = take 4 v @ (t @ r)" by (simp add: t_def)
  have m: "match_ci (js ''Vol.'') (v @ r) = Some (t @ r)"
    unfolding v_eq using ci by (rule match_ci_append)
  have tok_all: "\<forall>x\<in>set tok. \<not> is_ws x"
    unfolding tok_def by (auto dest: set_takeWhileD)
  from tok tok_all have hd_t: "\<not> is_ws (hd (t @ r))"
    unfolding t by (cases tok) auto
  from tok t have t_ne: "t @ r \<noteq> []" by simp
  have d1: "dropWhile is_ws (t @ r) = t @ r"
    using hd_t t_ne by (cases "t @ r") auto
  from w have hd_w: "is_ws (hd w)"
    unfolding w_def using hd_dropWhile [of "\<lambda>c. \<not> is_ws c" t] by auto
  have tw: "takeWhile (\<lambda>c. \<not> is_ws c) (t @ r) = tok"
  proof -
    have "takeWhile (\<lambda>c. \<not> is_ws c) (tok @ (w @ r)) = tok"
      using tok_all w hd_w by (cases w) (auto simp: takeWhile_append2)
    then show ?thesis by (simp add: t)
  qed
  have dw: "dropWhile (\<lambda>c. \<not> is_ws c) (t @ r) = w @ r"
  proof -
    have "dropWhile (\<lambda>c. \<not> is_ws c) (tok @ (w @ r)) = w @ r"
      using tok_all w hd_w by (cases w) (auto simp: dropWhile_append2)
    then show ?thesis by (simp add: t)
  qed
  from dropWhile_ws_run [OF ws r] have d2: "dropWhile is_ws (w @ r) = r" .
  have "remove_volume (v @ r) = (if tok \<noteq> [] \<and> w @ r \<noteq> [] then r else v @ r)"
    unfolding remove_volume_def Let_def m option.case d1 tw dw d2 ..
  with tok w show ?thesis by simp
qed

lemma set_remove_volume: "set (remove_volume s) \<subseteq> set s"
proof (cases "match_ci (js ''Vol.'') s")
  case None
  then show ?thesis by (simp add: remove_volume_def)
next
  case (Some r)
  have "set (dropWhile is_ws (dropWhile (\<lambda>c. \<not> is_ws c) (dropWhile is_ws r))) \<subseteq> set r"
    by (meson set_dropWhileD subsetI)
  with match_ci_suffix [OF Some] Some show ?thesis
    by (auto simp: remove_volume_def Let_def)
qed

subsection \<open>Chapter Bonus\<close>

lemma is_bonus_shape:
  assumes "ci_equal c (js ''Chapter'')" and "w \<noteq> []" and "list_all is_ws w"
    and "ci_equal b (js ''Bonus'')"
  shows "is_bonus (c @ w @ b @ rest)"
proof -
  have m: "match_ci (js ''Chapter'') (c @ w @ b @ rest) = Some (w @ b @ rest)"
    using assms(1) by (rule match_ci_append)
  have "js ''Bonus'' \<noteq> []" by (simp add: js_def)
  from ci_equal_hd [OF assms(4) this] hd_Bonus have b: "b \<noteq> []" "\<not> is_ws (hd b)"
    by (auto dest: not_ws_B)
  then have "b @ rest \<noteq> []" "\<not> is_ws (hd (b @ rest))" by auto
  from dropWhile_ws_run [OF assms(3) this] have d: "dropWhile is_ws (w @ b @ rest) = b @ rest" .
  from takeWhile_ws_run [OF assms(2,3)] have t: "takeWhile is_ws (w @ b @ rest) \<noteq> []" .
  from match_ci_append [OF assms(4)] have "match_ci (js ''Bonus'') (b @ rest) = Some rest" .
  with m d t show ?thesis by (simp add: is_bonus_def)
qed

lemma is_bonus_hd: "is_bonus s \<Longrightarrow> s \<noteq> [] \<and> canonicalize (hd s) = 0x43"
proof -
  assume "is_bonus s"
  then obtain r where "match_ci (js ''Chapter'') s = Some r"
    by (auto simp: is_bonus_def split: option.splits)
  moreover have "js ''Chapter'' \<noteq> []" by (simp add: js_def)
  ultimately show ?thesis using match_ci_hd hd_Chapter by metis
qed

subsection \<open>The chapter pattern\<close>

lemma chapter_here_hd: "chapter_here s = Some n \<Longrightarrow> s \<noteq> [] \<and> canonicalize (hd s) = 0x43"
proof -
  assume "chapter_here s = Some n"
  then consider r where "match_ci (js ''Ch.'') s = Some r" | r where "match_ci (js ''Chapter'') s = Some r"
    by (auto simp: chapter_here_def split: option.splits)
  then show ?thesis
  proof cases
    case 1
    moreover have "js ''Ch.'' \<noteq> []" by (simp add: js_def)
    ultimately show ?thesis using match_ci_hd hd_Ch by metis
  next
    case 2
    moreover have "js ''Chapter'' \<noteq> []" by (simp add: js_def)
    ultimately show ?thesis using match_ci_hd hd_Chapter by metis
  qed
qed

lemma chapter_match_no_C:
  "\<forall>x\<in>set s. canonicalize x \<noteq> 0x43 \<Longrightarrow> chapter_match s = None"
proof (induction s)
  case Nil
  then show ?case by simp
next
  case (Cons c cs)
  have "chapter_here (c # cs) = None"
  proof (cases "chapter_here (c # cs)")
    case (Some n)
    from chapter_here_hd [OF Some] Cons.prems show ?thesis by simp
  qed simp
  with Cons show ?case by simp
qed

lemma parseChapterNumber_no_C:
  assumes "\<forall>x\<in>set d. canonicalize x \<noteq> 0x43"
  shows "parseChapterNumber d = d"
proof -
  from assms set_remove_volume [of d] have c: "\<forall>x\<in>set (remove_volume d). canonicalize x \<noteq> 0x43"
    by blast
  then have "chapter_match (remove_volume d) = None" by (rule chapter_match_no_C)
  moreover have "\<not> is_bonus (remove_volume d)"
  proof
    assume "is_bonus (remove_volume d)"
    from is_bonus_hd [OF this] c show False by (cases "remove_volume d") auto
  qed
  ultimately show ?thesis by (simp add: parseChapterNumber_def)
qed

section \<open>Lemmas about the numbers\<close>

subsection \<open>Digit counts and integer logarithms\<close>

declare ilen.simps [simp del]

lemma ilen_bounds:
  "1 < b \<Longrightarrow> 0 < x \<Longrightarrow> b ^ nat (ilen b x - 1) \<le> x \<and> x < b ^ nat (ilen b x) \<and> 0 < ilen b x"
proof (induction b x rule: ilen.induct)
  case (1 b x)
  show ?case
  proof (cases "x < b")
    case True
    with 1 have "x div b = 0" by simp
    then have "ilen b (x div b) = 0" by (simp add: ilen.simps)
    with 1 have "ilen b x = 1" by (simp add: ilen.simps [of b x])
    with True 1 show ?thesis by simp
  next
    case False
    with 1 have pos: "0 < x div b" by (simp add: pos_imp_zdiv_pos_iff)
    from 1 have l: "ilen b x = ilen b (x div b) + 1" by (simp add: ilen.simps [of b x])
    from "1.IH" 1 pos have ih: "b ^ nat (ilen b (x div b) - 1) \<le> x div b"
      "x div b < b ^ nat (ilen b (x div b))" "0 < ilen b (x div b)" by simp_all
    let ?n = "ilen b (x div b)"
    have n: "nat (?n + 1 - 1) = Suc (nat (?n - 1))" "nat (?n + 1) = Suc (nat ?n)"
      using ih(3) by simp_all
    have "b * b ^ nat (?n - 1) \<le> b * (x div b)"
      using ih(1) 1 by simp
    also have "\<dots> \<le> x"
    proof -
      have e: "b * (x div b) + x mod b = x" by simp
      have "0 \<le> x mod b" using 1 by simp
      with e show ?thesis by linarith
    qed
    finally have "b * b ^ nat (?n - 1) \<le> x" .
    moreover have "nat ?n = Suc (nat (?n - 1))" using ih(3) by simp
    then have "b ^ nat ?n = b * b ^ nat (?n - 1)" by (simp only: power_Suc)
    ultimately have lo: "b ^ nat (ilen b x - 1) \<le> x" by (simp add: l)
    have "x div b + 1 \<le> b ^ nat ?n" using ih(2) by simp
    then have "b * (x div b + 1) \<le> b * b ^ nat ?n" using 1 by simp
    moreover have "x < b * (x div b + 1)"
    proof -
      have e: "b * (x div b) + x mod b = x" by simp
      have m: "x mod b < b" using 1 by simp
      have "b * (x div b + 1) = b * (x div b) + b" by (simp add: distrib_left)
      with e m show ?thesis by linarith
    qed
    ultimately have hi: "x < b ^ nat (ilen b x)" by (simp add: l n)
    from lo hi l ih(3) show ?thesis by simp
  qed
qed

lemma quotient_of_pos:
  assumes "0 < v" and "quotient_of v = (p, q)"
  shows "0 < p" and "0 < q" and "v = of_int p / of_int q"
proof -
  from assms(2) show q: "0 < q" by (rule quotient_of_denom_pos)
  from assms(2) show v: "v = of_int p / of_int q" by (rule quotient_of_div)
  with assms(1) q show "0 < p" by (simp add: zero_less_divide_iff)
qed

lemma ilog_bounds:
  assumes b: "1 < b" and v: "0 < v"
  shows "of_int b powi ilog b v \<le> v" and "v < of_int b powi (ilog b v + 1)"
proof -
  obtain p q where pq: "quotient_of v = (p, q)" by (cases "quotient_of v")
  from quotient_of_pos [OF v pq] have p: "0 < p" and q: "0 < q" and veq: "v = of_int p / of_int q" .
  let ?B = "of_int b :: rat"
  have B: "1 < ?B" "0 < ?B" using b by simp_all
  define lp where "lp = ilen b p"
  define lq where "lq = ilen b q"
  define d where "d = lp - lq"
  from ilen_bounds [OF b p] have bp: "b ^ nat (lp - 1) \<le> p" "p < b ^ nat lp" "0 < lp"
    by (simp_all add: lp_def)
  from ilen_bounds [OF b q] have bq: "b ^ nat (lq - 1) \<le> q" "q < b ^ nat lq" "0 < lq"
    by (simp_all add: lq_def)
  have P1: "?B powi (lp - 1) \<le> of_int p"
  proof -
    have "(of_int (b ^ nat (lp - 1)) :: rat) \<le> of_int p" using bp(1) by (simp only: of_int_le_iff)
    then show ?thesis using bp(3) by (simp add: power_int_def)
  qed
  have P2: "of_int p < ?B powi lp"
  proof -
    have "(of_int p :: rat) < of_int (b ^ nat lp)" using bp(2) by (simp only: of_int_less_iff)
    then show ?thesis using bp(3) by (simp add: power_int_def)
  qed
  have Q1: "?B powi (lq - 1) \<le> of_int q"
  proof -
    have "(of_int (b ^ nat (lq - 1)) :: rat) \<le> of_int q" using bq(1) by (simp only: of_int_le_iff)
    then show ?thesis using bq(3) by (simp add: power_int_def)
  qed
  have Q2: "of_int q < ?B powi lq"
  proof -
    have "(of_int q :: rat) < of_int (b ^ nat lq)" using bq(2) by (simp only: of_int_less_iff)
    then show ?thesis using bq(3) by (simp add: power_int_def)
  qed
  have qpos: "(0::rat) < of_int q" using q by simp
  have ppos: "(0::rat) < of_int p" using p by simp
  have lower: "?B powi (d - 1) < v"
  proof -
    have "?B powi (d - 1) * of_int q < ?B powi (d - 1) * ?B powi lq"
      using Q2 B by (simp add: zero_less_power_int)
    also have "\<dots> = ?B powi (lp - 1)"
      using B by (simp add: d_def flip: power_int_add)
    also have "\<dots> \<le> of_int p" by (rule P1)
    finally show ?thesis using qpos by (simp add: veq pos_less_divide_eq)
  qed
  have upper: "v < ?B powi (d + 1)"
  proof -
    have "of_int p < ?B powi lp" by (rule P2)
    also have "\<dots> = ?B powi (d + 1) * ?B powi (lq - 1)"
      using B by (simp add: d_def flip: power_int_add)
    also have "\<dots> \<le> ?B powi (d + 1) * of_int q"
      using Q1 B by (simp add: zero_less_power_int)
    finally show ?thesis using qpos by (simp add: veq pos_divide_less_eq)
  qed
  have i: "ilog b v = (if ?B powi d \<le> v then d else d - 1)"
    by (simp add: ilog_def pq d_def lp_def lq_def Let_def)
  show "of_int b powi ilog b v \<le> v"
    using lower i by (auto simp: less_imp_le)
  show "v < of_int b powi (ilog b v + 1)"
    using upper i by (auto simp: not_le)
qed

lemma powi_strict_mono: "1 < (b::rat) \<Longrightarrow> m < n \<Longrightarrow> b powi m < b powi n"
  by (rule power_int_strict_increasing)

lemma ilog_unique:
  assumes b: "1 < b" and "of_int b powi e \<le> v" and "v < of_int b powi (e + 1)"
  shows "ilog b v = e"
proof -
  have B: "1 < (of_int b :: rat)" using b by simp
  then have "0 < (of_int b :: rat) powi e" by (simp add: zero_less_power_int)
  with assms(2) have v: "0 < v" by simp
  from ilog_bounds [OF b v] have 1: "of_int b powi ilog b v \<le> v"
    and 2: "v < of_int b powi (ilog b v + 1)" .
  have "\<not> ilog b v < e"
  proof
    assume "ilog b v < e"
    then have "ilog b v + 1 \<le> e" by simp
    then have "(of_int b :: rat) powi (ilog b v + 1) \<le> of_int b powi e"
      using B by (simp add: power_int_increasing)
    with 2 assms(2) show False by simp
  qed
  moreover have "\<not> e < ilog b v"
  proof
    assume "e < ilog b v"
    then have "e + 1 \<le> ilog b v" by simp
    then have "(of_int b :: rat) powi (e + 1) \<le> of_int b powi ilog b v"
      using B by (simp add: power_int_increasing)
    with 1 assms(3) show False by simp
  qed
  ultimately show ?thesis by simp
qed

subsection \<open>Rounding to an integer\<close>

lemma round_half_even_error: "\<bar>of_int (round_half_even q) - q\<bar> \<le> 1 / 2"
proof -
  define f where "f = \<lfloor>q\<rfloor>"
  have "of_int f \<le> q" "q < of_int f + 1" unfolding f_def by linarith+
  then show ?thesis
    unfolding round_half_even_def Let_def f_def [symmetric]
    by (auto simp: abs_if)
qed

lemma round_half_even_of_int [simp]: "round_half_even (of_int m) = m"
  by (simp add: round_half_even_def)

lemma round_half_even_mono:
  assumes "p \<le> q" shows "round_half_even p \<le> round_half_even q"
proof (cases "\<lfloor>p\<rfloor> = \<lfloor>q\<rfloor>")
  case True
  with assms show ?thesis by (auto simp: round_half_even_def Let_def)
next
  case False
  with assms have "\<lfloor>p\<rfloor> < \<lfloor>q\<rfloor>" using floor_mono [OF assms] by simp
  then have "\<lfloor>p\<rfloor> + 1 \<le> \<lfloor>q\<rfloor>" by simp
  moreover have "round_half_even p \<le> \<lfloor>p\<rfloor> + 1" by (simp add: round_half_even_def Let_def)
  moreover have "\<lfloor>q\<rfloor> \<le> round_half_even q" by (simp add: round_half_even_def Let_def)
  ultimately show ?thesis by linarith
qed

lemma round_half_even_ge: "of_int m \<le> q \<Longrightarrow> m \<le> round_half_even q"
  using round_half_even_mono [of "of_int m" q] by simp

lemma round_half_even_le: "q \<le> of_int m \<Longrightarrow> round_half_even q \<le> m"
  using round_half_even_mono [of q "of_int m"] by simp

subsection \<open>Rounding to binary64\<close>

lemma two_powi_pos [simp]: "0 < (2::rat) powi e"
  by (simp add: zero_less_power_int)

lemma ten_powi_pos [simp]: "0 < (10::rat) powi e"
  by (simp add: zero_less_power_int)

lemma ilog2_bounds:
  assumes "0 < v"
  shows "2 powi ilog 2 v \<le> v" and "v < 2 powi (ilog 2 v + 1)"
  using ilog_bounds [of 2 v] assms by simp_all

lemma ilog10_bounds:
  assumes "0 < v"
  shows "10 powi ilog 10 v \<le> v" and "v < 10 powi (ilog 10 v + 1)"
  using ilog_bounds [of 10 v] assms by simp_all

lemma ilog2_unique: "2 powi e \<le> v \<Longrightarrow> v < 2 powi (e + 1) \<Longrightarrow> ilog 2 v = e"
  using ilog_unique [of 2 e v] by simp

lemma ilog10_unique: "10 powi e \<le> v \<Longrightarrow> v < 10 powi (e + 1) \<Longrightarrow> ilog 10 v = e"
  using ilog_unique [of 10 e v] by simp

lemma ilog2_mono:
  assumes "0 < u" "u \<le> v" shows "ilog 2 u \<le> ilog 2 v"
proof (rule ccontr)
  assume "\<not> ilog 2 u \<le> ilog 2 v"
  then have "ilog 2 v + 1 \<le> ilog 2 u" by simp
  then have "(2::rat) powi (ilog 2 v + 1) \<le> 2 powi ilog 2 u"
    by (simp add: power_int_increasing)
  moreover from assms have "0 < v" by simp
  ultimately show False using ilog2_bounds(1) [OF assms(1)] ilog2_bounds(2) [of v] assms(2)
    by simp
qed

text \<open>The scaled value lies between \<open>2 ^ 52\<close> and \<open>2 ^ 53\<close>.\<close>

lemma scaled_bounds:
  assumes "0 < v"
  shows "2 ^ 52 \<le> v / 2 powi (ilog 2 v - 52)" and "v / 2 powi (ilog 2 v - 52) < 2 ^ 53"
proof -
  let ?E = "ilog 2 v"
  have e: "(2::rat) powi ?E = 2 ^ 52 * 2 powi (?E - 52)"
    by (simp add: power_int_diff)
  have e1: "(2::rat) powi (?E + 1) = 2 ^ 53 * 2 powi (?E - 52)"
    by (simp add: power_int_diff power_int_add)
  from ilog2_bounds(1) [OF assms] show "2 ^ 52 \<le> v / 2 powi (?E - 52)"
    by (simp add: e pos_le_divide_eq)
  from ilog2_bounds(2) [OF assms] show "v / 2 powi (?E - 52) < 2 ^ 53"
    by (simp add: e1 pos_divide_less_eq)
qed

lemma significand_bounds:
  assumes "0 < v"
  shows "2 ^ 52 \<le> round_half_even (v / 2 powi (ilog 2 v - 52))"
    and "round_half_even (v / 2 powi (ilog 2 v - 52)) \<le> 2 ^ 53"
proof -
  from scaled_bounds(1) [OF assms] have "of_int (2 ^ 52) \<le> v / 2 powi (ilog 2 v - 52)" by simp
  then show "2 ^ 52 \<le> round_half_even (v / 2 powi (ilog 2 v - 52))"
    by (rule round_half_even_ge)
  from scaled_bounds(2) [OF assms] have "v / 2 powi (ilog 2 v - 52) \<le> of_int (2 ^ 53)" by simp
  then show "round_half_even (v / 2 powi (ilog 2 v - 52)) \<le> 2 ^ 53"
    by (rule round_half_even_le)
qed

lemma binary64_round_bounds:
  assumes "0 < v"
  shows "2 powi ilog 2 v \<le> binary64_round v" and "binary64_round v \<le> 2 powi (ilog 2 v + 1)"
proof -
  let ?E = "ilog 2 v"
  let ?m = "round_half_even (v / 2 powi (?E - 52))"
  have e: "(2::rat) powi ?E = 2 ^ 52 * 2 powi (?E - 52)"
    by (simp add: power_int_diff)
  have e1: "(2::rat) powi (?E + 1) = 2 ^ 53 * 2 powi (?E - 52)"
    by (simp add: power_int_diff power_int_add)
  from significand_bounds [OF assms] have "(of_int (2 ^ 52) :: rat) \<le> of_int ?m"
    and "(of_int ?m :: rat) \<le> of_int (2 ^ 53)" by (simp_all only: of_int_le_iff)
  then have m: "(2 ^ 52 :: rat) \<le> of_int ?m" "(of_int ?m :: rat) \<le> 2 ^ 53" by simp_all
  show "2 powi ?E \<le> binary64_round v"
    unfolding binary64_round_def e using m(1) by (simp add: mult_right_mono)
  show "binary64_round v \<le> 2 powi (?E + 1)"
    unfolding binary64_round_def e1 using m(2) by (simp add: mult_right_mono)
qed

lemma binary64_round_pos: "0 < v \<Longrightarrow> 0 < binary64_round v"
  using binary64_round_bounds(1) [of v] two_powi_pos [of "ilog 2 v"] by linarith

lemma binary64_round_error:
  assumes "0 < v"
  shows "\<bar>binary64_round v - v\<bar> \<le> v / 2 ^ 53"
proof -
  let ?e = "ilog 2 v - 52"
  let ?q = "v / 2 powi ?e"
  have "binary64_round v - v = (of_int (round_half_even ?q) - ?q) * 2 powi ?e"
    by (simp add: binary64_round_def algebra_simps)
  then have "\<bar>binary64_round v - v\<bar> = \<bar>of_int (round_half_even ?q) - ?q\<bar> * 2 powi ?e"
    by (simp add: abs_mult)
  also have "\<dots> \<le> 1 / 2 * 2 powi ?e"
    using round_half_even_error [of ?q] by (simp add: mult_right_mono)
  also have "\<dots> = 2 powi ilog 2 v / 2 ^ 53"
    by (simp add: power_int_diff)
  also have "\<dots> \<le> v / 2 ^ 53"
    using ilog2_bounds(1) [OF assms] by (simp add: divide_right_mono)
  finally show ?thesis .
qed

lemma binary64_round_mono:
  assumes "0 < u" "u \<le> v"
  shows "binary64_round u \<le> binary64_round v"
proof (cases "ilog 2 u = ilog 2 v")
  case True
  from assms(2) have "u / 2 powi (ilog 2 v - 52) \<le> v / 2 powi (ilog 2 v - 52)"
    by (simp add: divide_right_mono)
  then have "round_half_even (u / 2 powi (ilog 2 v - 52)) \<le> round_half_even (v / 2 powi (ilog 2 v - 52))"
    by (rule round_half_even_mono)
  then show ?thesis by (simp add: binary64_round_def True mult_right_mono)
next
  case False
  with ilog2_mono [OF assms] have "ilog 2 u + 1 \<le> ilog 2 v" by simp
  then have "(2::rat) powi (ilog 2 u + 1) \<le> 2 powi ilog 2 v"
    by (simp add: power_int_increasing)
  moreover from assms have "0 < v" by simp
  ultimately show ?thesis
    using binary64_round_bounds(2) [OF assms(1)] binary64_round_bounds(1) [of v] by linarith
qed

lemma binary64_round_idem:
  assumes "0 < v"
  shows "binary64_round (binary64_round v) = binary64_round v"
proof -
  let ?E = "ilog 2 v"
  let ?e = "?E - 52"
  let ?m = "round_half_even (v / 2 powi ?e)"
  let ?x = "binary64_round v"
  have x: "?x = of_int ?m * 2 powi ?e" by (simp add: binary64_round_def)
  from significand_bounds [OF assms] have m: "2 ^ 52 \<le> ?m" "?m \<le> 2 ^ 53" .
  show ?thesis
  proof (cases "?m = 2 ^ 53")
    case True
    then have "?x = 2 ^ 53 * 2 powi ?e" by (simp add: x)
    also have "\<dots> = 2 powi (?E + 1)" by (simp add: power_int_diff power_int_add)
    finally have x1: "?x = 2 powi (?E + 1)" .
    have il: "ilog 2 ((2::rat) powi (?E + 1)) = ?E + 1"
      by (rule ilog2_unique) (simp_all add: power_int_add)
    have "(2::rat) powi (?E + 1) / 2 powi (?E + 1 - 52) = of_int (2 ^ 52)"
      by (simp add: power_int_diff power_int_add)
    then have "binary64_round (2 powi (?E + 1)) = of_int (2 ^ 52) * 2 powi (?E + 1 - 52)"
      unfolding binary64_round_def [of "2 powi (?E + 1)"] il by (simp only: round_half_even_of_int)
    also have "\<dots> = (2::rat) powi (?E + 1)"
      by (simp add: power_int_diff power_int_add)
    finally show ?thesis by (simp add: x1)
  next
    case False
    with m have m': "?m < 2 ^ 53" by simp
    then have "(of_int ?m :: rat) < of_int (2 ^ 53)" by (simp only: of_int_less_iff)
    then have u: "(of_int ?m :: rat) < 2 ^ 53" by simp
    from m(1) have "(of_int (2 ^ 52) :: rat) \<le> of_int ?m" by (simp only: of_int_le_iff)
    then have l: "(2 ^ 52 :: rat) \<le> of_int ?m" by simp
    have "ilog 2 ?x = ?E"
    proof (rule ilog2_unique)
      have "(2::rat) powi ?E = 2 ^ 52 * 2 powi ?e" by (simp add: power_int_diff)
      also have "\<dots> \<le> of_int ?m * 2 powi ?e" using l by (simp add: mult_right_mono)
      finally show "2 powi ?E \<le> ?x" by (simp add: x)
      have "(of_int ?m :: rat) * 2 powi ?e < 2 ^ 53 * 2 powi ?e"
        using u by (simp add: mult_strict_right_mono)
      also have "\<dots> = 2 powi (?E + 1)" by (simp add: power_int_diff power_int_add)
      finally show "?x < 2 powi (?E + 1)" by (simp add: x)
    qed
    then have "binary64_round ?x = of_int (round_half_even (?x / 2 powi ?e)) * 2 powi ?e"
      by (simp add: binary64_round_def [of ?x])
    also have "?x / 2 powi ?e = of_int ?m" by (simp add: x)
    finally show ?thesis by (simp add: x)
  qed
qed

subsection \<open>The range of the chapter numbers\<close>

lemma two_powi_mono: "a \<le> b \<Longrightarrow> (2::rat) powi a \<le> 2 powi b"
  by (rule power_int_increasing) simp_all

lemma ten_powi_mono: "a \<le> b \<Longrightarrow> (10::rat) powi a \<le> 10 powi b"
  by (rule power_int_increasing) simp_all

lemma ten_powi_strict_mono: "a < b \<Longrightarrow> (10::rat) powi a < 10 powi b"
  by (rule power_int_strict_increasing) simp_all

lemma in_range_pos: "in_range v \<Longrightarrow> 0 < v"
proof -
  assume "in_range v"
  then have "10 powi (- 10) \<le> v" by (simp add: in_range_def)
  moreover have "0 < (10::rat) powi (- 10)" by simp
  ultimately show ?thesis by linarith
qed

lemma in_range_ilog2:
  assumes "in_range v"
  shows "- 1022 \<le> ilog 2 v" and "ilog 2 v < 100"
proof -
  from assms have v: "0 < v" by (rule in_range_pos)
  from assms have lo: "10 powi (- 10) \<le> v" and hi: "v \<le> 10 powi 30"
    by (simp_all add: in_range_def)
  have l: "(2::rat) powi (- 1022) \<le> 10 powi (- 10)"
    by (simp add: power_int_minus field_simps)
  have h: "(10::rat) powi 30 < 2 powi 100"
    by simp
  show "- 1022 \<le> ilog 2 v"
  proof (rule ccontr)
    assume "\<not> - 1022 \<le> ilog 2 v"
    then have "ilog 2 v + 1 \<le> - 1022" by simp
    then have "(2::rat) powi (ilog 2 v + 1) \<le> 2 powi (- 1022)"
      by (rule two_powi_mono)
    with ilog2_bounds(2) [OF v] l lo show False by linarith
  qed
  show "ilog 2 v < 100"
  proof (rule ccontr)
    assume "\<not> ilog 2 v < 100"
    then have "100 \<le> ilog 2 v" by simp
    then have "(2::rat) powi 100 \<le> 2 powi ilog 2 v"
      by (rule two_powi_mono)
    with ilog2_bounds(1) [OF v] h hi show False by linarith
  qed
qed

lemma to_double_in_range:
  assumes "in_range v"
  shows "to_double v = Finite (binary64_round v)"
proof -
  from assms have v: "0 < v" by (rule in_range_pos)
  from in_range_ilog2 [OF assms] have e: "max (ilog 2 v) (- 1022) = ilog 2 v"
    and u: "ilog 2 v + 1 \<le> 100" by simp_all
  from u have "(2::rat) powi (ilog 2 v + 1) \<le> 2 powi 100"
    by (rule two_powi_mono)
  moreover have "(2::rat) powi 100 < 2 powi 1024" by simp
  ultimately have "binary64_round v < 2 powi 1024"
    using binary64_round_bounds(2) [OF v] by linarith
  then have "\<not> 2 powi 1024 \<le> binary64_round v" by simp
  with v e show ?thesis
    unfolding to_double_def Let_def binary64_round_def by simp
qed

subsection \<open>Numbers with at most fifteen significant digits round to different values\<close>

lemma few_digits_pos: "few_digits v \<Longrightarrow> 0 < v"
  by (auto simp: few_digits_def)

lemma powi_diff_of_int:
  assumes "q \<le> q'"
  shows "(10::rat) powi q' = of_int (10 ^ nat (q' - q)) * 10 powi q"
proof -
  have "(10::rat) powi q' = 10 powi (q' - q) * 10 powi q"
    by (simp flip: power_int_add)
  also have "(10::rat) powi (q' - q) = of_int (10 ^ nat (q' - q))"
    using assms by (simp add: power_int_def)
  finally show ?thesis .
qed

lemma few_digits_gap:
  assumes "few_digits u" "few_digits v" "u < v"
  shows "u \<le> (v - u) * 10 ^ 15"
proof -
  from assms(1) obtain m q where m: "0 < m" "m \<le> 10 ^ 15" and u: "u = of_int m * 10 powi q"
    by (auto simp: few_digits_def)
  from assms(2) obtain m' q' where m': "0 < m'" "m' \<le> 10 ^ 15" and v: "v = of_int m' * 10 powi q'"
    by (auto simp: few_digits_def)
  from assms(1) have upos: "0 < u" by (rule few_digits_pos)
  have mr: "(of_int m :: rat) \<le> 10 ^ 15"
  proof -
    from m(2) have "(of_int m :: rat) \<le> of_int (10 ^ 15)" by (simp only: of_int_le_iff)
    then show ?thesis by simp
  qed
  have mr': "(of_int m' :: rat) \<le> 10 ^ 15"
  proof -
    from m'(2) have "(of_int m' :: rat) \<le> of_int (10 ^ 15)" by (simp only: of_int_le_iff)
    then show ?thesis by simp
  qed
  show ?thesis
  proof (cases "q \<le> q'")
    case True
    define j where "j = m' * 10 ^ nat (q' - q) - m"
    have "v - u = of_int j * 10 powi q"
      unfolding u v j_def powi_diff_of_int [OF True] by (simp add: algebra_simps)
    moreover from assms(3) have "0 < v - u" by simp
    ultimately have "0 < (of_int j :: rat) * 10 powi q" by simp
    then have "0 < (of_int j :: rat)" by (rule zero_less_mult_pos2) simp
    then have "1 \<le> j" by simp
    then have "(1::rat) \<le> of_int j" by simp
    then have "10 powi q \<le> (of_int j :: rat) * 10 powi q"
      by (simp add: mult_right_mono)
    with \<open>v - u = of_int j * 10 powi q\<close> have g: "10 powi q \<le> v - u" by simp
    have "u \<le> 10 ^ 15 * 10 powi q" unfolding u using mr by (simp add: mult_right_mono)
    also have "\<dots> \<le> 10 ^ 15 * (v - u)" using g by simp
    finally show ?thesis by (simp add: mult.commute)
  next
    case False
    then have le: "q' \<le> q" by simp
    define j where "j = m' - m * 10 ^ nat (q - q')"
    have "v - u = of_int j * 10 powi q'"
      unfolding u v j_def powi_diff_of_int [OF le] by (simp add: algebra_simps)
    moreover from assms(3) have "0 < v - u" by simp
    ultimately have "0 < (of_int j :: rat) * 10 powi q'" by simp
    then have "0 < (of_int j :: rat)" by (rule zero_less_mult_pos2) simp
    then have "1 \<le> j" by simp
    then have "(1::rat) \<le> of_int j" by simp
    then have "10 powi q' \<le> (of_int j :: rat) * 10 powi q'"
      by (simp add: mult_right_mono)
    with \<open>v - u = of_int j * 10 powi q'\<close> have g: "10 powi q' \<le> v - u" by simp
    have "v \<le> 10 ^ 15 * 10 powi q'" unfolding v using mr' by (simp add: mult_right_mono)
    also have "\<dots> \<le> 10 ^ 15 * (v - u)" using g by simp
    finally have "v \<le> (v - u) * 10 ^ 15" by (simp add: mult.commute)
    with assms(3) show ?thesis by linarith
  qed
qed

lemma binary64_round_less:
  assumes "few_digits u" "few_digits v" "u < v"
  shows "binary64_round u \<noteq> binary64_round v"
proof
  assume eq: "binary64_round u = binary64_round v"
  from assms(1) have u: "0 < u" by (rule few_digits_pos)
  from assms(2) have v: "0 < v" by (rule few_digits_pos)
  from binary64_round_error [OF u] have eu: "\<bar>binary64_round u - u\<bar> * 2 ^ 53 \<le> u"
    by (simp add: pos_le_divide_eq)
  from binary64_round_error [OF v] have ev: "\<bar>binary64_round v - v\<bar> * 2 ^ 53 \<le> v"
    by (simp add: pos_le_divide_eq)
  have "v - u \<le> \<bar>binary64_round v - v\<bar> + \<bar>binary64_round u - u\<bar>"
    using eq by linarith
  then have "(v - u) * 2 ^ 53 \<le> \<bar>binary64_round v - v\<bar> * 2 ^ 53 + \<bar>binary64_round u - u\<bar> * 2 ^ 53"
    by (simp add: algebra_simps)
  with eu ev have d: "(v - u) * 2 ^ 53 \<le> u + v" by linarith
  from few_digits_gap [OF assms] have g: "u \<le> (v - u) * 10 ^ 15" .
  from d g assms(3) show False by simp
qed

lemma binary64_round_inj:
  assumes "few_digits u" "few_digits v" "binary64_round u = binary64_round v"
  shows "u = v"
proof (rule ccontr)
  assume "u \<noteq> v"
  then consider "u < v" | "v < u" by linarith
  then show False
  proof cases
    case 1
    from binary64_round_less [OF assms(1,2) 1] assms(3) show False by simp
  next
    case 2
    from binary64_round_less [OF assms(2,1) 2] assms(3) show False by simp
  qed
qed

subsection \<open>Decimal representations\<close>

lemma ten_powi_nat: "(10::rat) powi (int k) = 10 ^ k"
  by simp

lemma dec_rep_bounds:
  assumes "dec_rep s k n x"
  shows "10 powi (n - 1) \<le> x" and "x < 10 powi n" and "0 < x"
proof -
  from assms have k: "0 < k" and s: "10 ^ (k - 1) \<le> s" "s < 10 ^ k"
    and x: "x = of_int s * 10 powi (n - int k)" by (simp_all add: dec_rep_def)
  from s(1) have "(of_int (10 ^ (k - 1)) :: rat) \<le> of_int s" by (simp only: of_int_le_iff)
  then have s1: "(10::rat) ^ (k - 1) \<le> of_int s" by simp
  from s(2) have "(of_int s :: rat) < of_int (10 ^ k)" by (simp only: of_int_less_iff)
  then have s2: "(of_int s :: rat) < 10 ^ k" by simp
  from k obtain k' where kk: "k = Suc k'" by (cases k) auto
  have "int k' + (n - int k) = n - 1" by (simp add: kk)
  with power_int_add [of "10::rat" "int k'" "n - int k"]
  have "(10::rat) powi (n - 1) = 10 ^ k' * 10 powi (n - int k)" by simp
  also have "\<dots> = 10 ^ (k - 1) * 10 powi (n - int k)" by (simp add: kk)
  also have "\<dots> \<le> of_int s * 10 powi (n - int k)" using s1 by (simp add: mult_right_mono)
  finally show l: "10 powi (n - 1) \<le> x" by (simp add: x)
  have "of_int s * 10 powi (n - int k) < 10 ^ k * (10::rat) powi (n - int k)"
    using s2 by (simp add: mult_strict_right_mono)
  also have "\<dots> = 10 powi n"
    using power_int_add [of "10::rat" "int k" "n - int k"] by simp
  finally show "x < 10 powi n" by (simp add: x)
  from l ten_powi_pos [of "n - 1"] show "0 < x" by linarith
qed

lemma dec_rep_few_digits:
  assumes "dec_rep s k n x" "k \<le> 15"
  shows "few_digits x"
proof -
  from assms(1) have k: "0 < k" and s: "10 ^ (k - 1) \<le> s" "s < 10 ^ k"
    and x: "x = of_int s * 10 powi (n - int k)" by (simp_all add: dec_rep_def)
  have "(0::int) < 10 ^ (k - 1)" by simp
  with s(1) have "0 < s" by linarith
  moreover have "(10::int) ^ k \<le> 10 ^ 15" by (rule power_increasing) (use assms(2) in simp_all)
  with s(2) have "s \<le> 10 ^ 15" by linarith
  ultimately show ?thesis using x unfolding few_digits_def by blast
qed

lemma few_digits_power: "few_digits (10 powi q)"
proof -
  have "(0::int) < 1 \<and> (1::int) \<le> 10 ^ 15 \<and> (10::rat) powi q = of_int 1 * 10 powi q" by simp
  then show ?thesis unfolding few_digits_def by blast
qed

lemma few_digits_multiple:
  "0 < m \<Longrightarrow> m \<le> 10 ^ 15 \<Longrightarrow> few_digits (of_int m * 10 powi q)"
  unfolding few_digits_def by blast

text \<open>A number with the digits \<open>s\<close> is not a multiple of a larger power of ten.\<close>

lemma dec_rep_multiple:
  assumes "dec_rep s k n x" and "x = of_int m * 10 powi q"
  shows "q \<le> n - int k"
proof (rule ccontr)
  assume "\<not> q \<le> n - int k"
  then have lt: "n - int k < q" by simp
  from assms(1) have nd: "\<not> 10 dvd s" and x: "x = of_int s * 10 powi (n - int k)"
    by (simp_all add: dec_rep_def)
  define j where "j = nat (q - (n - int k))"
  from lt have j: "0 < j" "q = int j + (n - int k)" by (simp_all add: j_def)
  have "(10::rat) powi q = 10 ^ j * 10 powi (n - int k)"
    unfolding j(2) by (simp add: power_int_add)
  with assms(2) x have "(of_int s :: rat) * 10 powi (n - int k) = of_int m * 10 ^ j * 10 powi (n - int k)"
    by simp
  then have "(of_int s :: rat) = of_int m * 10 ^ j" by simp
  also have "\<dots> = of_int (m * 10 ^ j)" by simp
  finally have "s = m * 10 ^ j" by (simp only: of_int_eq_iff)
  with j(1) have "10 dvd s" by (cases j) simp_all
  with nd show False ..
qed

subsection \<open>Values that round to the same binary64 value\<close>

lemma squeeze:
  assumes x: "few_digits x" and c: "few_digits c"
    and b: "(x \<le> c \<and> c \<le> binary64_round x) \<or> (binary64_round x \<le> c \<and> c \<le> x)"
  shows "c = x"
proof -
  from x have xp: "0 < x" by (rule few_digits_pos)
  from c have cp: "0 < c" by (rule few_digits_pos)
  let ?xd = "binary64_round x"
  have xdp: "0 < ?xd" using xp by (rule binary64_round_pos)
  have idem: "binary64_round ?xd = ?xd" using xp by (rule binary64_round_idem)
  have "binary64_round c = ?xd"
  proof -
    from b show ?thesis
    proof
      assume a: "x \<le> c \<and> c \<le> ?xd"
      from binary64_round_mono [OF xp, of c] a have "?xd \<le> binary64_round c" by simp
      moreover from binary64_round_mono [OF cp, of ?xd] a idem have "binary64_round c \<le> ?xd" by simp
      ultimately show ?thesis by simp
    next
      assume a: "?xd \<le> c \<and> c \<le> x"
      from binary64_round_mono [OF cp, of x] a have "binary64_round c \<le> ?xd" by simp
      moreover from binary64_round_mono [OF xdp, of c] a idem have "?xd \<le> binary64_round c" by simp
      ultimately show ?thesis by simp
    qed
  qed
  with binary64_round_inj [OF c x] show ?thesis by simp
qed

text \<open>The decade of the rounded value.\<close>

lemma rounded_decade:
  assumes r: "dec_rep s k n x" and k: "k \<le> 15"
  shows "(ilog 10 (binary64_round x) + 1 = n \<and> 10 powi (n - 1) \<le> binary64_round x) \<or>
         (ilog 10 (binary64_round x) + 1 = n - 1 \<and> x = 10 powi (n - 1) \<and>
            binary64_round x < x)"
proof -
  let ?xd = "binary64_round x"
  from dec_rep_bounds [OF r] have lo: "10 powi (n - 1) \<le> x" and hi: "x < 10 powi n" and xp: "0 < x" .
  from dec_rep_few_digits [OF r k] have fx: "few_digits x" .
  have up: "?xd < 10 powi n"
  proof (rule ccontr)
    assume "\<not> ?xd < 10 powi n"
    with hi have "x \<le> 10 powi n \<and> 10 powi n \<le> ?xd" by simp
    with squeeze [OF fx few_digits_power [of n]] have "10 powi n = x" by blast
    with hi show False by simp
  qed
  show ?thesis
  proof (cases "10 powi (n - 1) \<le> ?xd")
    case True
    with up have "ilog 10 ?xd = n - 1" by (intro ilog10_unique) simp_all
    with True show ?thesis by simp
  next
    case False
    with lo have "?xd \<le> 10 powi (n - 1) \<and> 10 powi (n - 1) \<le> x" by simp
    with squeeze [OF fx few_digits_power [of "n - 1"]] have x: "x = 10 powi (n - 1)" by simp
    have low: "10 powi (n - 2) \<le> ?xd"
    proof (rule ccontr)
      assume "\<not> 10 powi (n - 2) \<le> ?xd"
      moreover have "(10::rat) powi (n - 2) \<le> 10 powi (n - 1)" by (rule ten_powi_mono) simp
      ultimately have "?xd \<le> 10 powi (n - 2) \<and> 10 powi (n - 2) \<le> x" using x by simp
      with squeeze [OF fx few_digits_power [of "n - 2"]] have "10 powi (n - 2) = x" by simp
      moreover have "(10::rat) powi (n - 2) < 10 powi (n - 1)" by (rule ten_powi_strict_mono) simp
      ultimately show False using x by simp
    qed
    from False have "?xd < 10 powi (n - 2 + 1)" by simp
    with low have "ilog 10 ?xd = n - 2" by (intro ilog10_unique)
    with False x show ?thesis by simp
  qed
qed

subsection \<open>The candidates of the digit search\<close>

lemma in_range_decade:
  assumes "- 9 \<le> n0" "n0 \<le> 28" "10 powi (n0 - 1) \<le> c" "c \<le> 10 powi n0"
  shows "in_range c"
proof -
  from assms(1) have "- 10 \<le> n0 - 1" by simp
  then have "(10::rat) powi (- 10) \<le> 10 powi (n0 - 1)" by (rule ten_powi_mono)
  moreover from assms(2) have "n0 \<le> 30" by simp
  then have "(10::rat) powi n0 \<le> 10 powi 30" by (rule ten_powi_mono)
  ultimately show ?thesis using assms(3,4) unfolding in_range_def by linarith
qed

lemma represents_iff:
  assumes "few_digits x" "few_digits c" "in_range c"
  shows "represents (binary64_round x) c \<longleftrightarrow> binary64_round c = binary64_round x"
  by (simp add: represents_def to_double_in_range [OF assms(3)])

lemma represents_eq:
  assumes "few_digits x" "few_digits c" "in_range c"
  shows "represents (binary64_round x) c \<longleftrightarrow> c = x"
  using represents_iff [OF assms] binary64_round_inj [OF assms(2,1)] by auto

text \<open>The two candidates with \<open>k\<close> digits.\<close>

lemma candidate_bounds:
  assumes b: "10 powi (n0 - 1) \<le> xd" "xd < 10 powi n0" and k: "0 < k"
  defines "g \<equiv> (10::rat) powi (n0 - int k)"
  defines "lo \<equiv> \<lfloor>xd / g\<rfloor>"
  shows "10 ^ (k - 1) \<le> lo" and "lo < 10 ^ k"
    and "10 powi (n0 - 1) \<le> of_int lo * g" and "of_int lo * g \<le> xd"
    and "xd < of_int (lo + 1) * g" and "of_int (lo + 1) * g \<le> 10 powi n0"
proof -
  have gp: "0 < g" by (simp add: g_def)
  from k obtain k' where kk: "k = Suc k'" by (cases k) auto
  have e1: "(10::rat) powi (n0 - 1) = 10 ^ (k - 1) * g"
    using power_int_add [of "10::rat" "int k'" "n0 - int k"] by (simp add: kk g_def)
  have e2: "(10::rat) powi n0 = 10 ^ k * g"
    using power_int_add [of "10::rat" "int k" "n0 - int k"] by (simp add: g_def)
  from b(1) gp have "(10::rat) ^ (k - 1) \<le> xd / g" by (simp add: e1 pos_le_divide_eq)
  then have "(of_int (10 ^ (k - 1)) :: rat) \<le> xd / g" by simp
  then show l1: "10 ^ (k - 1) \<le> lo" unfolding lo_def by (simp only: le_floor_iff)
  from b(2) gp have "xd / g < 10 ^ k" by (simp add: e2 pos_divide_less_eq)
  then have "xd / g < of_int (10 ^ k)" by simp
  then show l2: "lo < 10 ^ k" unfolding lo_def by (simp only: floor_less_iff)
  from l1 have "(of_int (10 ^ (k - 1)) :: rat) \<le> of_int lo" by (simp only: of_int_le_iff)
  then have "(10::rat) ^ (k - 1) * g \<le> of_int lo * g" using gp by (simp add: mult_right_mono)
  then show "10 powi (n0 - 1) \<le> of_int lo * g" by (simp add: e1)
  have "of_int lo \<le> xd / g" unfolding lo_def by (rule of_int_floor_le)
  then show "of_int lo * g \<le> xd" using gp by (simp add: pos_le_divide_eq)
  have "xd / g < of_int (lo + 1)" unfolding lo_def by linarith
  then show "xd < of_int (lo + 1) * g" using gp by (simp add: pos_divide_less_eq)
  from l2 have "lo + 1 \<le> 10 ^ k" by simp
  then have "(of_int (lo + 1) :: rat) \<le> of_int (10 ^ k)" by (simp only: of_int_le_iff)
  then have "(of_int (lo + 1) :: rat) * g \<le> 10 ^ k * g" using gp by (simp add: mult_right_mono)
  then show "of_int (lo + 1) * g \<le> 10 powi n0" by (simp add: e2)
qed

lemma digits_at_cases:
  assumes fx: "few_digits x"
    and b: "10 powi (n0 - 1) \<le> binary64_round x" "binary64_round x < 10 powi n0"
    and n0: "- 9 \<le> n0" "n0 \<le> 28" and k: "0 < k" "k \<le> 15"
  defines "g \<equiv> (10::rat) powi (n0 - int k)"
  defines "lo \<equiv> \<lfloor>binary64_round x / g\<rfloor>"
  shows "digits_at (binary64_round x) n0 k =
     (if x = of_int lo * g then Some (lo, n0)
      else if x = of_int (lo + 1) * g
           then (if lo + 1 = 10 ^ k then Some (10 ^ (k - 1), n0 + 1) else Some (lo + 1, n0))
           else None)"
proof -
  let ?xd = "binary64_round x"
  note cb = candidate_bounds [OF b k(1), folded g_def, folded lo_def]
  have k15: "(10::int) ^ k \<le> 10 ^ 15" by (rule power_increasing) (use k(2) in simp_all)
  have "(0::int) < 10 ^ (k - 1)" by simp
  with cb(1) have lop: "0 < lo" by linarith
  from cb(2) k15 have lo15: "lo \<le> 10 ^ 15" "lo + 1 \<le> 10 ^ 15" by linarith+
  from lop have hip: "0 < lo + 1" by simp
  have f_lo: "few_digits (of_int lo * g)"
    unfolding g_def using lop lo15(1) by (rule few_digits_multiple)
  have f_hi: "few_digits (of_int (lo + 1) * g)"
    unfolding g_def using hip lo15(2) by (rule few_digits_multiple)
  have r_lo: "in_range (of_int lo * g)"
    using n0 cb(3) cb(4) b(2) by (intro in_range_decade [of n0]) linarith+
  have r_hi: "in_range (of_int (lo + 1) * g)"
    using n0 cb(5) cb(6) b(1) by (intro in_range_decade [of n0]) linarith+
  have ok_lo: "represents ?xd (of_int lo * g) \<longleftrightarrow> of_int lo * g = x"
    using fx f_lo r_lo by (rule represents_eq)
  have ok_hi: "represents ?xd (of_int (lo + 1) * g) \<longleftrightarrow> of_int (lo + 1) * g = x"
    using fx f_hi r_hi by (rule represents_eq)
  have ne: "of_int lo * g \<noteq> of_int (lo + 1) * g"
    using cb(4) cb(5) by linarith
  have lo_ne: "lo \<noteq> 10 ^ k" using cb(2) by simp
  show ?thesis
    unfolding digits_at_def Let_def g_def [symmetric] lo_def [symmetric] ok_lo ok_hi
    using ne lo_ne by auto
qed

subsection \<open>The digit search finds the digits of the number\<close>

lemma dec_rep_power:
  assumes "dec_rep s k n x" and "x = 10 powi q"
  shows "s = 1" and "k = 1" and "q = n - 1"
proof -
  from assms(1) have k: "0 < k" and s: "10 ^ (k - 1) \<le> s" "s < 10 ^ k"
    and x: "x = of_int s * 10 powi (n - int k)" by (simp_all add: dec_rep_def)
  from assms(2) have "x = of_int 1 * 10 powi q" by simp
  from dec_rep_multiple [OF assms(1) this] have q: "q \<le> n - int k" .
  from dec_rep_bounds [OF assms(1)] assms(2)
  have "10 powi (n - 1) \<le> (10::rat) powi q" by simp
  then have "n - 1 \<le> q"
    by (rule_tac ccontr) (use ten_powi_strict_mono [of q "n - 1"] in simp)
  with q k show k1: "k = 1" and q1: "q = n - 1" by simp_all
  from x assms(2) have "(of_int s :: rat) * 10 powi (n - 1) = 1 * 10 powi (n - 1)"
    by (simp add: k1 q1)
  then have "(of_int s :: rat) = 1" by (simp only: mult_cancel_right) simp
  then show "s = 1" by simp
qed

lemma digits_at_shorter:
  assumes r: "dec_rep s k n x" and k: "k \<le> 15" and n: "- 8 \<le> n" "n \<le> 28"
    and k': "0 < k'" "k' < k"
  shows "digits_at (binary64_round x) (ilog 10 (binary64_round x) + 1) k' = None"
proof -
  let ?xd = "binary64_round x"
  let ?n0 = "ilog 10 ?xd + 1"
  from dec_rep_few_digits [OF r k] have fx: "few_digits x" .
  from dec_rep_bounds(3) [OF r] have "0 < ?xd" by (rule binary64_round_pos)
  from ilog10_bounds [OF this] have b: "10 powi (?n0 - 1) \<le> ?xd" "?xd < 10 powi ?n0" by simp_all
  from rounded_decade [OF r k] have d: "?n0 = n \<or> (?n0 = n - 1 \<and> x = 10 powi (n - 1))" by auto
  with n have n0: "- 9 \<le> ?n0" "?n0 \<le> 28" by auto
  from k k' have k15: "k' \<le> 15" by simp
  have no: "x \<noteq> of_int m * 10 powi (?n0 - int k')" for m
  proof
    assume "x = of_int m * 10 powi (?n0 - int k')"
    from dec_rep_multiple [OF r this] have le: "?n0 - int k' \<le> n - int k" .
    from d show False
    proof
      assume "?n0 = n" with le k' show False by simp
    next
      assume "?n0 = n - 1 \<and> x = 10 powi (n - 1)"
      then have "x = 10 powi (n - 1)" by simp
      from dec_rep_power(2) [OF r this] k' show False by simp
    qed
  qed
  show ?thesis
    unfolding digits_at_cases [OF fx b n0 k'(1) k15] by (simp only: no if_False)
qed

lemma digits_at_exact:
  assumes r: "dec_rep s k n x" and k: "k \<le> 15" and n: "- 8 \<le> n" "n \<le> 28"
  shows "digits_at (binary64_round x) (ilog 10 (binary64_round x) + 1) k = Some (s, n)"
proof -
  let ?xd = "binary64_round x"
  let ?n0 = "ilog 10 ?xd + 1"
  define g where "g = (10::rat) powi (?n0 - int k)"
  define lo where "lo = \<lfloor>?xd / g\<rfloor>"
  have gp: "0 < g" by (simp add: g_def)
  from r have kp: "0 < k" and s: "10 ^ (k - 1) \<le> s" "s < 10 ^ k"
    and x: "x = of_int s * 10 powi (n - int k)" by (simp_all add: dec_rep_def)
  from dec_rep_few_digits [OF r k] have fx: "few_digits x" .
  from dec_rep_bounds(3) [OF r] have "0 < ?xd" by (rule binary64_round_pos)
  from ilog10_bounds [OF this] have b: "10 powi (?n0 - 1) \<le> ?xd" "?xd < 10 powi ?n0" by simp_all
  from rounded_decade [OF r k]
  have d: "?n0 = n \<or> (?n0 = n - 1 \<and> x = 10 powi (n - 1) \<and> ?xd < x)" by auto
  with n have n0: "- 9 \<le> ?n0" "?n0 \<le> 28" by auto
  note cb = candidate_bounds [OF b kp, folded g_def, folded lo_def]
  note cases = digits_at_cases [OF fx b n0 kp k, folded g_def, folded lo_def]
  have k15: "(10::int) ^ k \<le> 10 ^ 15" by (rule power_increasing) (use k in simp_all)
  have "(0::int) < 10 ^ (k - 1)" by simp
  with cb(1) have lop: "0 < lo" by linarith
  from cb(2) k15 have lo15: "lo \<le> 10 ^ 15" "lo + 1 \<le> 10 ^ 15" by linarith+
  have f_lo: "few_digits (of_int lo * g)"
    unfolding g_def using lop lo15(1) by (rule few_digits_multiple)
  have f_hi: "few_digits (of_int (lo + 1) * g)"
    unfolding g_def using _ lo15(2) by (rule few_digits_multiple) (use lop in simp)
  text \<open>The number is a multiple \<open>t\<close> of the grid.\<close>
  obtain t where t: "x = of_int t * g" and norm: "t \<noteq> lo \<Longrightarrow>
      (if t = 10 ^ k then Some (10 ^ (k - 1), ?n0 + 1) else Some (t, ?n0)) = Some (s, n)"
    and norm_lo: "t = lo \<Longrightarrow> ?n0 = n \<and> t = s"
  proof -
    from d show ?thesis
    proof
      assume e: "?n0 = n"
      then have "x = of_int s * g" by (simp add: x g_def)
      moreover have "(if s = 10 ^ k then Some (10 ^ (k - 1), ?n0 + 1) else Some (s, ?n0)) = Some (s, n)"
        using s(2) e by simp
      ultimately show ?thesis using that e by blast
    next
      assume a: "?n0 = n - 1 \<and> x = 10 powi (n - 1) \<and> ?xd < x"
      then have xe: "x = 10 powi (n - 1)" by blast
      from dec_rep_power [OF r xe] have s1: "s = 1" and k1: "k = 1" by simp_all
      from a have n0e: "ilog 10 ?xd + 1 = n - 1" by (rule conjunct1)
      have ge: "g = 10 powi (n - 2)" unfolding g_def n0e k1 by simp
      have pw: "(10::rat) powi (n - 1) = 10 * 10 powi (n - 2)"
        using power_int_add [of "10::rat" 1 "n - 2"] by simp
      have 1: "x = of_int 10 * g" unfolding ge xe pw by simp
      have 2: "(if (10::int) = 10 ^ k then Some (10 ^ (k - 1), ?n0 + 1) else Some (10, ?n0)) = Some (s, n)"
        using n0e by (simp add: k1 s1)
      from a have xlt: "?xd < x" by blast
      have "of_int lo * g \<le> ?xd" by (rule cb(4))
      with xlt 1 have "of_int lo * g < of_int 10 * g" by linarith
      then have "lo \<noteq> 10" by auto
      with 1 2 show ?thesis using that [of 10] by simp
    qed
  qed
  have "t = lo \<or> t = lo + 1"
  proof (cases "x \<le> ?xd")
    case True
    then have "of_int t \<le> ?xd / g" using gp by (simp add: t pos_le_divide_eq)
    then have le: "t \<le> lo" unfolding lo_def by (simp only: le_floor_iff)
    have "\<not> t < lo"
    proof
      assume "t < lo"
      then have "(of_int t :: rat) < of_int lo" by (simp only: of_int_less_iff)
      then have lt: "x < of_int lo * g" using gp by (simp add: t mult_strict_right_mono)
      with cb(4) have "x \<le> of_int lo * g \<and> of_int lo * g \<le> ?xd" by simp
      with squeeze [OF fx f_lo] have "of_int lo * g = x" by blast
      with lt show False by simp
    qed
    with le show ?thesis by simp
  next
    case False
    then have "?xd / g < of_int t" using gp by (simp add: t pos_divide_less_eq)
    then have "lo < t" unfolding lo_def by (simp only: floor_less_iff)
    then have ge: "lo + 1 \<le> t" by simp
    have "\<not> lo + 1 < t"
    proof
      assume "lo + 1 < t"
      then have "(of_int (lo + 1) :: rat) < of_int t" by (simp only: of_int_less_iff)
      then have lt: "of_int (lo + 1) * g < x" using gp by (simp add: t mult_strict_right_mono)
      with cb(5) have "?xd \<le> of_int (lo + 1) * g \<and> of_int (lo + 1) * g \<le> x" by simp
      with squeeze [OF fx f_hi] have "of_int (lo + 1) * g = x" by blast
      with lt show False by simp
    qed
    with ge show ?thesis by simp
  qed
  then show ?thesis
  proof
    assume e: "t = lo"
    have xl: "x = of_int lo * g" unfolding e [symmetric] by (rule t)
    have "digits_at ?xd ?n0 k = Some (lo, ?n0)"
      unfolding cases by (simp only: if_P [OF xl])
    also have "\<dots> = Some (s, n)" using norm_lo [OF e] e by simp
    finally show ?thesis .
  next
    assume e: "t = lo + 1"
    then have tl: "t \<noteq> lo" by simp
    have nm: "(if lo + 1 = 10 ^ k then Some (10 ^ (k - 1), ?n0 + 1)
        else Some (lo + 1, ?n0)) = Some (s, n)"
      using norm [OF tl] unfolding e .
    have xh: "x = of_int (lo + 1) * g" unfolding e [symmetric] by (rule t)
    have "of_int lo * g < of_int (lo + 1) * g" using cb(4) cb(5) by linarith
    with xh have xnl: "x \<noteq> of_int lo * g" by linarith
    have "digits_at ?xd ?n0 k = (if lo + 1 = 10 ^ k then Some (10 ^ (k - 1), ?n0 + 1)
        else Some (lo + 1, ?n0))"
      unfolding cases by (simp only: if_not_P [OF xnl] if_P [OF xh])
    with nm show ?thesis by simp
  qed
qed

lemma shortest_from_found:
  assumes "\<And>j. k0 \<le> j \<Longrightarrow> j < k \<Longrightarrow> digits_at x n0 j = None"
    and "digits_at x n0 k = Some (s, n)" and "k0 \<le> k" and "k < k0 + fuel"
  shows "shortest_from x n0 k0 fuel = Some (s, k, n)"
  using assms
proof (induction fuel arbitrary: k0)
  case 0
  then show ?case by simp
next
  case (Suc fuel)
  show ?case
  proof (cases "k0 = k")
    case True
    with Suc.prems(2) show ?thesis by simp
  next
    case False
    with Suc.prems(3) have lt: "k0 < k" by simp
    with Suc.prems(1) have none: "digits_at x n0 k0 = None" by simp
    have "shortest_from x n0 (Suc k0) fuel = Some (s, k, n)"
    proof (rule Suc.IH)
      show "digits_at x n0 j = None" if "Suc k0 \<le> j" "j < k" for j
        using that Suc.prems(1) [of j] by simp
      show "digits_at x n0 k = Some (s, n)" by (rule Suc.prems(2))
      show "Suc k0 \<le> k" using lt by simp
      show "k < Suc k0 + fuel" using Suc.prems(4) by simp
    qed
    with none show ?thesis by simp
  qed
qed

lemma shortest_digits_dec_rep:
  assumes r: "dec_rep s k n x" and k: "k \<le> 15" and n: "- 8 \<le> n" "n \<le> 28"
  shows "shortest_digits (binary64_round x) = (s, k, n)"
proof -
  let ?xd = "binary64_round x"
  let ?n0 = "ilog 10 ?xd + 1"
  from r have kp: "0 < k" by (simp add: dec_rep_def)
  have "shortest_from ?xd ?n0 1 17 = Some (s, k, n)"
  proof (rule shortest_from_found)
    show "digits_at ?xd ?n0 j = None" if "1 \<le> j" "j < k" for j
      using digits_at_shorter [OF r k n, of j] that by simp
    show "digits_at ?xd ?n0 k = Some (s, n)" using r k n by (rule digits_at_exact)
    show "1 \<le> k" using kp by simp
    show "k < 1 + 17" using k by simp
  qed
  then show ?thesis by (simp add: shortest_digits_def)
qed

section \<open>Lemmas about digit strings\<close>

subsection \<open>Digits\<close>

lemma digit_value_range: "is_digit c \<Longrightarrow> 0 \<le> digit_value c \<and> digit_value c \<le> 9"
  by (simp add: is_digit_def digit_value_def word_le_def)

lemma digit_cu_value: "is_digit c \<Longrightarrow> digit_cu (digit_value c) = c"
  by (simp add: digit_cu_def digit_value_def)

lemma digit_value_zero: "digit_value c = 0 \<longleftrightarrow> c = 0x30"
proof
  assume "digit_value c = 0"
  then have "uint c = uint (0x30 :: cu)" by (simp add: digit_value_def)
  then show "c = 0x30" by (simp only: word_uint_eq_iff)
next
  assume "c = 0x30" then show "digit_value c = 0" by (simp add: digit_value_def)
qed

lemma digits_value_Nil [simp]: "digits_value [] = 0"
  by (simp add: digits_value_def)

lemma digits_value_snoc: "digits_value (ds @ [c]) = 10 * digits_value ds + digit_value c"
  by (simp add: digits_value_def)

lemma digits_value_append:
  "digits_value (a @ b) = digits_value a * 10 ^ length b + digits_value b"
proof (induction b rule: rev_induct)
  case Nil
  then show ?case by simp
next
  case (snoc c b)
  have "digits_value (a @ b @ [c]) = 10 * digits_value (a @ b) + digit_value c"
    using digits_value_snoc [of "a @ b" c] by simp
  with snoc show ?case by (simp add: digits_value_snoc algebra_simps)
qed

lemma digits_value_single: "digits_value [c] = digit_value c"
  using digits_value_snoc [of "[]" c] by simp

lemma digits_value_Cons:
  "digits_value (c # ds) = digit_value c * 10 ^ length ds + digits_value ds"
  using digits_value_append [of "[c]" ds] by (simp add: digits_value_single)

lemma digits_value_bounds:
  "list_all is_digit ds \<Longrightarrow> 0 \<le> digits_value ds \<and> digits_value ds < 10 ^ length ds"
proof (induction ds rule: rev_induct)
  case Nil
  then show ?case by simp
next
  case (snoc c ds)
  then have d: "0 \<le> digit_value c" "digit_value c \<le> 9" using digit_value_range by simp_all
  from snoc have "0 \<le> digits_value ds" "digits_value ds + 1 \<le> 10 ^ length ds" by simp_all
  then have "0 \<le> 10 * digits_value ds" "10 * (digits_value ds + 1) \<le> 10 * 10 ^ length ds"
    by simp_all
  with d show ?case by (simp add: digits_value_snoc)
qed

lemma digits_value_zeros [simp]: "digits_value (replicate a 0x30) = 0"
  by (induction a) (simp_all add: digits_value_Cons digit_value_zero)

lemma digits_value_leading_zeros:
  "digits_value (replicate a 0x30 @ ds) = digits_value ds"
  by (simp add: digits_value_append)

lemma digits_value_trailing_zeros:
  "digits_value (ds @ replicate t 0x30) = digits_value ds * 10 ^ t"
  by (simp add: digits_value_append)

text \<open>A digit string that does not start with a zero.\<close>

lemma digits_value_lower:
  assumes "list_all is_digit ds" "ds \<noteq> []" "hd ds \<noteq> 0x30"
  shows "10 ^ (length ds - 1) \<le> digits_value ds"
proof -
  from assms(2) obtain c r where ds: "ds = c # r" by (cases ds) auto
  with assms have c: "is_digit c" "c \<noteq> 0x30" and r: "list_all is_digit r" by simp_all
  from c have "digit_value c \<noteq> 0" by (simp add: digit_value_zero)
  with digit_value_range [OF c(1)] have "1 \<le> digit_value c" by simp
  then have "1 * 10 ^ length r \<le> digit_value c * (10::int) ^ length r"
    by (intro mult_right_mono) simp_all
  then have "10 ^ length r \<le> digit_value c * (10::int) ^ length r" by simp
  moreover from digits_value_bounds [OF r] have "0 \<le> digits_value r" by simp
  ultimately have "10 ^ length r \<le> digit_value c * 10 ^ length r + digits_value r" by linarith
  then show ?thesis by (simp add: ds digits_value_Cons)
qed

lemma digits_value_not_dvd:
  assumes "list_all is_digit ds" "ds \<noteq> []" "last ds \<noteq> 0x30"
  shows "\<not> 10 dvd digits_value ds"
proof -
  from assms(2) obtain r c where ds: "ds = r @ [c]" by (cases ds rule: rev_cases) auto
  with assms have c: "is_digit c" "c \<noteq> 0x30" by simp_all
  from c have "digit_value c \<noteq> 0" by (simp add: digit_value_zero)
  with digit_value_range [OF c(1)] have "0 < digit_value c" "digit_value c < 10" by simp_all
  then have "\<not> 10 dvd digit_value c" by (simp add: zdvd_not_zless)
  then show ?thesis by (simp add: ds digits_value_snoc dvd_add_right_iff)
qed

lemma int_digits_small: "n < 10 \<Longrightarrow> int_digits n = [digit_cu n]"
  by simp

lemma int_digits_large: "10 \<le> n \<Longrightarrow> int_digits n = int_digits (n div 10) @ [digit_cu (n mod 10)]"
  by simp

declare int_digits.simps [simp del]

lemma int_digits_value:
  assumes "list_all is_digit ds" "ds \<noteq> []" "hd ds \<noteq> 0x30"
  shows "int_digits (digits_value ds) = ds"
  using assms
proof (induction ds rule: rev_induct)
  case Nil
  then show ?case by simp
next
  case (snoc c r)
  then have c: "is_digit c" and r: "list_all is_digit r" by simp_all
  from digit_value_range [OF c] have d: "0 \<le> digit_value c" "digit_value c \<le> 9" by simp_all
  show ?case
  proof (cases "r = []")
    case True
    with d c show ?thesis
      by (simp add: digits_value_single int_digits_small digit_cu_value)
  next
    case False
    with snoc.prems have h: "hd r \<noteq> 0x30" by simp
    from snoc.IH [OF r False h] have ih: "int_digits (digits_value r) = r" .
    from digits_value_lower [OF r False h] have "1 \<le> digits_value r"
      using one_le_power [of "10::int" "length r - 1"] by linarith
    with d have big: "10 \<le> 10 * digits_value r + digit_value c" by linarith
    have dv: "(10 * digits_value r + digit_value c) div 10 = digits_value r"
      using d by simp
    have md: "(10 * digits_value r + digit_value c) mod 10 = digit_value c"
      using d by simp
    show ?thesis
      unfolding digits_value_snoc int_digits_large [OF big] dv md ih
      by (simp add: digit_cu_value [OF c])
  qed
qed

subsection \<open>Rendering a number with few digits\<close>

lemma toString_finite:
  assumes "x \<noteq> 0" and "shortest_digits x = (s, k, n)" and "- 5 \<le> n" "n \<le> 21"
  shows "Number_toString (Finite x) =
     (if int k \<le> n then int_digits s @ replicate (nat (n - int k)) 0x30
      else if 0 < n then take (nat n) (int_digits s) @ js ''.'' @ drop (nat n) (int_digits s)
      else js ''0.'' @ replicate (nat (- n)) 0x30 @ int_digits s)"
  unfolding Number_toString_def js_number.case assms(2) Let_def prod.case
  using assms(1,3,4) by (simp only: if_False if_True simp_thms)

lemma toString_dec_rep:
  assumes r: "dec_rep s k n x" and k: "k \<le> 15" and n: "- 5 \<le> n" "n \<le> 21"
  shows "Number_toString (to_double x) =
     (if int k \<le> n then int_digits s @ replicate (nat (n - int k)) 0x30
      else if 0 < n then take (nat n) (int_digits s) @ js ''.'' @ drop (nat n) (int_digits s)
      else js ''0.'' @ replicate (nat (- n)) 0x30 @ int_digits s)"
proof -
  from dec_rep_bounds [OF r] have b: "10 powi (n - 1) \<le> x" "x < 10 powi n" "0 < x" .
  have "in_range x"
    using n b by (intro in_range_decade [of n]) simp_all
  then have t: "to_double x = Finite (binary64_round x)" by (rule to_double_in_range)
  from b(3) have "0 < binary64_round x" by (rule binary64_round_pos)
  then have nz: "binary64_round x \<noteq> 0" by simp
  from n have "- 8 \<le> n" "n \<le> 28" by simp_all
  from shortest_digits_dec_rep [OF r k this]
  have sd: "shortest_digits (binary64_round x) = (s, k, n)" .
  show ?thesis
    unfolding t using nz sd n by (rule toString_finite)
qed

subsection \<open>Leading and trailing zeros\<close>

lemma takeWhile_eq_replicate:
  "takeWhile (\<lambda>c. c = z) xs = replicate (length (takeWhile (\<lambda>c. c = z) xs)) z"
  by (induction xs) auto

lemma leading_zeros:
  obtains a where "xs = replicate a 0x30 @ dropWhile (\<lambda>c. c = 0x30) xs"
proof -
  have "xs = takeWhile (\<lambda>c. c = 0x30) xs @ dropWhile (\<lambda>c. c = 0x30) xs" by simp
  with takeWhile_eq_replicate [of "0x30" xs] that show ?thesis by metis
qed

lemma dropWhile_hd:
  "dropWhile (\<lambda>c. c = (z::cu)) xs = [] \<or> hd (dropWhile (\<lambda>c. c = z) xs) \<noteq> z"
  using hd_dropWhile [of "\<lambda>c. c = z" xs] by auto

lemma trailing_zeros:
  obtains t where "xs = rev (dropWhile (\<lambda>c. c = 0x30) (rev xs)) @ replicate t 0x30"
proof -
  obtain t where "rev xs = replicate t 0x30 @ dropWhile (\<lambda>c. c = 0x30) (rev xs)"
    by (rule leading_zeros)
  then have "rev (rev xs) = rev (replicate t 0x30 @ dropWhile (\<lambda>c. c = 0x30) (rev xs))"
    by simp
  then have "xs = rev (dropWhile (\<lambda>c. c = 0x30) (rev xs)) @ replicate t 0x30"
    by simp
  with that show ?thesis .
qed

lemma stripped_last:
  "rev (dropWhile (\<lambda>c. c = (z::cu)) (rev xs)) = [] \<or>
   last (rev (dropWhile (\<lambda>c. c = z) (rev xs))) \<noteq> z"
  using dropWhile_hd [of z "rev xs"] by (auto simp: last_rev)

lemma strip_zeros:
  assumes "D \<noteq> []" "hd D \<noteq> 0x30" "last D \<noteq> 0x30"
  shows "rev (dropWhile (\<lambda>c. c = 0x30) (rev (dropWhile (\<lambda>c. c = 0x30)
           (replicate a 0x30 @ D @ replicate b 0x30)))) = D"
proof -
  have 1: "dropWhile (\<lambda>c. c = 0x30) (replicate a 0x30 @ D @ replicate b 0x30) = D @ replicate b 0x30"
    using assms(1,2) by (cases D) (simp_all add: dropWhile_append3)
  have 2: "dropWhile (\<lambda>c. c = 0x30) (replicate b 0x30 @ rev D) = rev D"
    using assms(1,3) by (cases D rule: rev_cases) (simp_all add: dropWhile_append3)
  show ?thesis by (simp add: 1 2)
qed

lemma dec_repI:
  assumes "list_all is_digit D" "D \<noteq> []" "hd D \<noteq> 0x30" "last D \<noteq> 0x30"
    and "x = of_int (digits_value D) * 10 powi (n - int (length D))"
  shows "dec_rep (digits_value D) (length D) n x"
proof -
  from digits_value_bounds [OF assms(1)] have "digits_value D < 10 ^ length D" by simp
  moreover from digits_value_lower [OF assms(1-3)] have "10 ^ (length D - 1) \<le> digits_value D" .
  moreover from digits_value_not_dvd [OF assms(1,2,4)] have "\<not> 10 dvd digits_value D" .
  moreover from assms(2) have "0 < length D" by simp
  ultimately show ?thesis using assms(5) unfolding dec_rep_def by simp
qed

lemma ten_powi_less_cancel: "(10::rat) powi a < 10 powi b \<Longrightarrow> a < b"
  by (rule ccontr) (use ten_powi_mono [of b a] in simp)

lemma ten_powi_neg_nat: "(10::rat) powi (- int m) = inverse (10 ^ m)"
  by (simp add: power_int_minus)

lemma js_zero_dot: "js ''0.'' = js ''0'' @ js ''.''"
  by (simp add: js_def)

lemma render_canonical:
  assumes ip: "list_all is_digit ip" and fp: "list_all is_digit fp"
    and sig: "length (significant ip fp) \<le> 15"
    and range: "decimal_value ip fp = 0 \<or>
      (1 / 10 ^ 6 \<le> decimal_value ip fp \<and> decimal_value ip fp < 10 ^ 21)"
  shows "Number_toString (to_double (decimal_value ip fp)) = canonical_decimal ip fp"
proof -
  define I where "I = dropWhile (\<lambda>c. c = 0x30) ip"
  define F where "F = rev (dropWhile (\<lambda>c. c = 0x30) (rev fp))"
  define x where "x = decimal_value ip fp"
  obtain a where ipd: "ip = replicate a 0x30 @ I" unfolding I_def by (rule leading_zeros)
  obtain t where fpd: "fp = F @ replicate t 0x30" unfolding F_def by (rule trailing_zeros)
  from ip ipd have dI: "list_all is_digit I" by (metis list_all_append)
  from fp fpd have dF: "list_all is_digit F" by (metis list_all_append)
  have hI: "I = [] \<or> hd I \<noteq> 0x30" unfolding I_def by (rule dropWhile_hd)
  have lF: "F = [] \<or> last F \<noteq> 0x30" unfolding F_def by (rule stripped_last)
  have vi: "digits_value ip = digits_value I"
    by (subst ipd) (rule digits_value_leading_zeros)
  have vf: "digits_value fp = digits_value F * 10 ^ t"
    by (subst fpd) (rule digits_value_trailing_zeros)
  have lf: "length fp = length F + t" by (subst fpd) simp
  have xv: "x = of_int (digits_value I) + of_int (digits_value F) / 10 ^ length F"
    unfolding x_def decimal_value_def vi vf lf by (simp add: power_add)
  have can: "canonical_decimal ip fp =
      (if I = [] then js ''0'' else I) @ (if F = [] then [] else js ''.'' @ F)"
    by (simp add: canonical_decimal_def I_def F_def Let_def)
  have all: "ip @ fp = replicate a 0x30 @ I @ F @ replicate t 0x30"
    using ipd fpd by simp
  consider (zero) "I = []" "F = []" | (both) "I \<noteq> []" "F \<noteq> []"
    | (int) "I \<noteq> []" "F = []" | (frac) "I = []" "F \<noteq> []" by blast
  then have "Number_toString (to_double x) = canonical_decimal ip fp"
  proof cases
    case zero
    then have "x = 0" by (simp add: xv)
    then show ?thesis using zero by (simp add: can to_double_def Number_toString_def)
  next
    case both
    let ?D = "I @ F"
    from both hI lF have D: "?D \<noteq> []" "hd ?D \<noteq> 0x30" "last ?D \<noteq> 0x30" by simp_all
    from dI dF have dD: "list_all is_digit ?D" by simp
    have "int (length I) - int (length ?D) = - int (length F)" by simp
    then have e: "(10::rat) powi (int (length I) - int (length ?D)) = inverse (10 ^ length F)"
      by (simp only: ten_powi_neg_nat)
    have "x = of_int (digits_value ?D) / 10 ^ length F"
      unfolding xv digits_value_append by (simp add: field_simps)
    then have "x = of_int (digits_value ?D) * 10 powi (int (length I) - int (length ?D))"
      unfolding e by (simp only: divide_inverse)
    from dec_repI [OF dD D this]
    have r: "dec_rep (digits_value ?D) (length ?D) (int (length I)) x" .
    have "significant ip fp = ?D"
      unfolding significant_def all using strip_zeros [OF D, of a t] by simp
    with sig have k: "length ?D \<le> 15" by simp
    then have n: "- 5 \<le> int (length I)" "int (length I) \<le> 21" by simp_all
    have id: "int_digits (digits_value ?D) = ?D" using dD D(1,2) by (rule int_digits_value)
    from both have c: "\<not> int (length ?D) \<le> int (length I)" "0 < int (length I)" by simp_all
    show ?thesis
      unfolding toString_dec_rep [OF r k n] id can using both c by simp
  next
    case int
    obtain z where Iz: "I = rev (dropWhile (\<lambda>c. c = 0x30) (rev I)) @ replicate z 0x30"
      by (rule trailing_zeros)
    define D where "D = rev (dropWhile (\<lambda>c. c = 0x30) (rev I))"
    from Iz have ID: "I = D @ replicate z 0x30" by (simp add: D_def)
    have Dne: "D \<noteq> []"
    proof
      assume "D = []"
      with ID have "I = replicate z 0x30" by simp
      with int(1) have "hd I = 0x30" by (cases z) auto
      with hI int(1) show False by simp
    qed
    with ID have "hd D = hd I" by (cases D) auto
    with hI int(1) have hD: "hd D \<noteq> 0x30" by simp
    have lD: "last D \<noteq> 0x30"
      using stripped_last [of "0x30" I] Dne unfolding D_def by blast
    from dI ID have dD: "list_all is_digit D" by (metis list_all_append)
    have len: "int (length I) - int (length D) = int z" by (subst ID) simp
    have "x = of_int (digits_value D) * 10 ^ z"
      unfolding xv int(2) by (subst ID) (simp add: digits_value_trailing_zeros)
    then have "x = of_int (digits_value D) * 10 powi (int (length I) - int (length D))"
      unfolding len by simp
    from dec_repI [OF dD Dne hD lD this]
    have r: "dec_rep (digits_value D) (length D) (int (length I)) x" .
    from int(2) fpd have fz: "fp = replicate t 0x30" by simp
    have "ip @ fp = replicate a 0x30 @ D @ replicate (z + t) 0x30"
      by (subst ipd, subst ID, subst fz) (simp add: replicate_add)
    then have "significant ip fp = D"
      unfolding significant_def using strip_zeros [OF Dne hD lD, of a "z + t"] by simp
    with sig have k: "length D \<le> 15" by simp
    from dec_rep_bounds [OF r] have b: "10 powi (int (length I) - 1) \<le> x" "0 < x" by simp_all
    with range have "x < 10 ^ 21" by (simp add: x_def)
    with b(1) have "(10::rat) powi (int (length I) - 1) < 10 powi 21" by simp
    then have "int (length I) - 1 < 21" by (rule ten_powi_less_cancel)
    then have n: "- 5 \<le> int (length I)" "int (length I) \<le> 21" by simp_all
    have id: "int_digits (digits_value D) = D" using dD Dne hD by (rule int_digits_value)
    have c: "int (length D) \<le> int (length I)" by (subst ID) simp
    have "D @ replicate (nat (int (length I) - int (length D))) 0x30 = I"
      unfolding len using ID by simp
    then show ?thesis
      unfolding toString_dec_rep [OF r k n] id can using int c by simp
  next
    case frac
    obtain j where Fj: "F = replicate j 0x30 @ dropWhile (\<lambda>c. c = 0x30) F"
      by (rule leading_zeros)
    define D where "D = dropWhile (\<lambda>c. c = 0x30) F"
    from Fj have FD: "F = replicate j 0x30 @ D" by (simp add: D_def)
    have Dne: "D \<noteq> []"
    proof
      assume "D = []"
      with FD have "F = replicate j 0x30" by simp
      with frac(2) have "last F = 0x30" by (cases j) auto
      with lF frac(2) show False by simp
    qed
    have hD: "hd D \<noteq> 0x30"
      using dropWhile_hd [of "0x30" F] Dne unfolding D_def by blast
    from FD Dne have "last D = last F" by simp
    with lF frac(2) have lD: "last D \<noteq> 0x30" by simp
    from dF FD have dD: "list_all is_digit D" by (metis list_all_append)
    have lenF: "length F = j + length D" by (subst FD) simp
    have vF: "digits_value F = digits_value D"
      by (subst FD) (rule digits_value_leading_zeros)
    have "- int j - int (length D) = - int (j + length D)" by simp
    then have e: "(10::rat) powi (- int j - int (length D)) = inverse (10 ^ (j + length D))"
      by (simp only: ten_powi_neg_nat)
    have "x = of_int (digits_value D) / 10 ^ (j + length D)"
      unfolding xv frac(1) vF lenF by simp
    then have "x = of_int (digits_value D) * 10 powi (- int j - int (length D))"
      unfolding e by (simp only: divide_inverse)
    from dec_repI [OF dD Dne hD lD this]
    have r: "dec_rep (digits_value D) (length D) (- int j) x" .
    from frac(1) ipd have iz: "ip = replicate a 0x30" by simp
    have "ip @ fp = replicate (a + j) 0x30 @ D @ replicate t 0x30"
      by (subst iz, subst fpd, subst FD) (simp add: replicate_add)
    then have "significant ip fp = D"
      unfolding significant_def using strip_zeros [OF Dne hD lD, of "a + j" t] by simp
    with sig have k: "length D \<le> 15" by simp
    from dec_rep_bounds [OF r] have b: "x < 10 powi (- int j)" "0 < x" by simp_all
    with range have "1 / 10 ^ 6 \<le> x" by (simp add: x_def)
    moreover have "(1::rat) / 10 ^ 6 = 10 powi (- 6)" by (simp add: power_int_minus)
    ultimately have "(10::rat) powi (- 6) < 10 powi (- int j)" using b(1) by simp
    then have "- 6 < - int j" by (rule ten_powi_less_cancel)
    then have n: "- 5 \<le> - int j" "- int j \<le> 21" by simp_all
    have id: "int_digits (digits_value D) = D" using dD Dne hD by (rule int_digits_value)
    from Dne have "0 < length D" by simp
    then have c: "\<not> int (length D) \<le> - int j" "\<not> 0 < - int j" by linarith+
    show ?thesis
      unfolding toString_dec_rep [OF r k n] id can
      using frac c FD [symmetric] by (simp add: js_zero_dot)
  qed
  then show ?thesis by (simp add: x_def)
qed

section \<open>Lemmas about the chapter number in a display name\<close>

subsection \<open>The number after the chapter keyword\<close>

lemma js_dot: "js ''.'' = [0x2E]"
  by (simp add: js_def)

lemma dot_not_digit: "\<not> is_digit 0x2E"
  by (simp add: is_digit_def)

lemma takeWhile_digits: "list_all is_digit ds \<Longrightarrow> takeWhile is_digit ds = ds"
  by (induction ds) auto

lemma dropWhile_digits: "list_all is_digit ds \<Longrightarrow> dropWhile is_digit ds = []"
  by (induction ds) auto

lemma takeWhile_digits_dot:
  "list_all is_digit ds \<Longrightarrow> takeWhile is_digit (ds @ 0x2E # r) = ds"
  by (induction ds) (auto simp: dot_not_digit)

lemma dropWhile_digits_dot:
  "list_all is_digit ds \<Longrightarrow> dropWhile is_digit (ds @ 0x2E # r) = 0x2E # r"
  by (induction ds) (auto simp: dot_not_digit)

lemma number_text_hd:
  assumes "ip \<noteq> []" "list_all is_digit ip"
  shows "number_text ip fp \<noteq> []" and "is_digit (hd (number_text ip fp))"
  using assms by (cases ip; simp add: number_text_def)+

lemma number_here_text:
  assumes w: "list_all is_ws w" and ip: "ip \<noteq> []" "list_all is_digit ip"
    and fp: "list_all is_digit fp"
  shows "number_here (w @ number_text ip fp) = Some (number_text ip fp)"
proof -
  from number_text_hd [OF ip] have "number_text ip fp \<noteq> []" "\<not> is_ws (hd (number_text ip fp))"
    by (auto dest: digit_not_ws)
  from dropWhile_ws_run [OF w this]
  have d: "dropWhile is_ws (w @ number_text ip fp) = number_text ip fp" .
  show ?thesis
  proof (cases "fp = []")
    case True
    then show ?thesis
      unfolding number_here_def d Let_def
      using ip by (simp add: number_text_def takeWhile_digits dropWhile_digits)
  next
    case False
    then have t: "number_text ip fp = ip @ 0x2E # fp" by (simp add: number_text_def js_dot)
    show ?thesis
      unfolding number_here_def d Let_def
      unfolding t takeWhile_digits_dot [OF ip(2)] dropWhile_digits_dot [OF ip(2)]
      using ip(1) False fp by (simp add: takeWhile_digits)
  qed
qed

lemma parseFloat_text:
  assumes ip: "ip \<noteq> []" "list_all is_digit ip" and fp: "list_all is_digit fp"
  shows "parseFloat (number_text ip fp) = to_double (decimal_value ip fp)"
proof (cases "fp = []")
  case True
  then show ?thesis
    unfolding parseFloat_def Let_def
    using ip by (simp add: number_text_def takeWhile_digits dropWhile_digits decimal_value_def)
next
  case False
  then have t: "number_text ip fp = ip @ 0x2E # fp" by (simp add: number_text_def js_dot)
  show ?thesis
    unfolding parseFloat_def Let_def
    unfolding t takeWhile_digits_dot [OF ip(2)] dropWhile_digits_dot [OF ip(2)]
    using ip(1) fp by (simp add: takeWhile_digits decimal_value_def)
qed

subsection \<open>The chapter keyword\<close>

lemma match_ci_nth:
  assumes "match_ci pat s = Some r" "i < length pat"
  shows "canonicalize (s ! i) = canonicalize (pat ! i)"
proof -
  from assms(1) have l: "length pat \<le> length s"
    and m: "map canonicalize (take (length pat) s) = map canonicalize pat"
    by (simp_all add: match_ci_def split: if_splits)
  from m have "map canonicalize (take (length pat) s) ! i = map canonicalize pat ! i" by simp
  with assms(2) l show ?thesis by simp
qed

lemma ci_equal_nth:
  assumes "ci_equal a pat" "i < length pat"
  shows "canonicalize (a ! i) = canonicalize (pat ! i)"
proof -
  from assms(1) have "map canonicalize a ! i = map canonicalize pat ! i"
    by (simp add: ci_equal_def)
  with assms(2) ci_equal_length [OF assms(1)] show ?thesis by simp
qed

lemma Ch_not_Chapter:
  assumes "ci_equal kw (js ''Ch.'')"
  shows "match_ci (js ''Chapter'') (kw @ r) = None"
proof (cases "match_ci (js ''Chapter'') (kw @ r)")
  case (Some r')
  from ci_equal_length [OF assms] have l: "length kw = 3" by (simp add: js_def)
  from match_ci_nth [OF Some, of 2] have "canonicalize ((kw @ r) ! 2) = 0x41"
    by (simp add: js_def canonicalize_def)
  moreover from ci_equal_nth [OF assms, of 2] have "canonicalize (kw ! 2) = 0x2E"
    by (simp add: js_def canonicalize_def)
  ultimately show ?thesis using l by (simp add: nth_append)
qed simp

lemma Chapter_not_Ch:
  assumes "ci_equal kw (js ''Chapter'')"
  shows "match_ci (js ''Ch.'') (kw @ r) = None"
proof (cases "match_ci (js ''Ch.'') (kw @ r)")
  case (Some r')
  from ci_equal_length [OF assms] have l: "length kw = 7" by (simp add: js_def)
  from match_ci_nth [OF Some, of 2] have "canonicalize ((kw @ r) ! 2) = 0x2E"
    by (simp add: js_def canonicalize_def)
  moreover from ci_equal_nth [OF assms, of 2] have "canonicalize (kw ! 2) = 0x41"
    by (simp add: js_def canonicalize_def)
  ultimately show ?thesis using l by (simp add: nth_append)
qed simp

lemma keyword_hd:
  assumes "ci_equal kw (js ''Ch.'') \<or> ci_equal kw (js ''Chapter'')"
  shows "kw \<noteq> []" and "canonicalize (hd kw) = 0x43"
proof -
  have ne: "js ''Ch.'' \<noteq> []" "js ''Chapter'' \<noteq> []" by (simp_all add: js_def)
  from assms have "kw \<noteq> [] \<and> canonicalize (hd kw) = 0x43"
  proof
    assume "ci_equal kw (js ''Ch.'')"
    from ci_equal_hd [OF this ne(1), unfolded hd_Ch] show ?thesis .
  next
    assume "ci_equal kw (js ''Chapter'')"
    from ci_equal_hd [OF this ne(2), unfolded hd_Chapter] show ?thesis .
  qed
  then show "kw \<noteq> []" and "canonicalize (hd kw) = 0x43" by simp_all
qed

lemma chapter_here_text:
  assumes kw: "ci_equal kw (js ''Ch.'') \<or> ci_equal kw (js ''Chapter'')"
    and w: "list_all is_ws w" and ip: "ip \<noteq> []" "list_all is_digit ip"
    and fp: "list_all is_digit fp"
  shows "chapter_here (kw @ w @ number_text ip fp) = Some (number_text ip fp)"
proof -
  note n = number_here_text [OF w ip fp]
  from kw show ?thesis
  proof
    assume c: "ci_equal kw (js ''Ch.'')"
    from match_ci_append [OF c] n show ?thesis by (simp add: chapter_here_def)
  next
    assume c: "ci_equal kw (js ''Chapter'')"
    from match_ci_append [OF c] Chapter_not_Ch [OF c] n show ?thesis
      by (simp add: chapter_here_def)
  qed
qed

lemma chapter_match_text:
  assumes kw: "ci_equal kw (js ''Ch.'') \<or> ci_equal kw (js ''Chapter'')"
    and w: "list_all is_ws w" and ip: "ip \<noteq> []" "list_all is_digit ip"
    and fp: "list_all is_digit fp"
  shows "chapter_match (kw @ w @ number_text ip fp) = Some (number_text ip fp)"
proof -
  from keyword_hd(1) [OF kw] obtain c cs where "kw @ w @ number_text ip fp = c # cs"
    by (cases kw) auto
  with chapter_here_text [OF assms] show ?thesis by simp
qed

lemma not_bonus_text:
  assumes kw: "ci_equal kw (js ''Ch.'') \<or> ci_equal kw (js ''Chapter'')"
    and w: "list_all is_ws w" and ip: "ip \<noteq> []" "list_all is_digit ip"
  shows "\<not> is_bonus (kw @ w @ number_text ip fp)"
proof -
  from kw show ?thesis
  proof
    assume c: "ci_equal kw (js ''Ch.'')"
    from Ch_not_Chapter [OF c] show ?thesis by (simp add: is_bonus_def)
  next
    assume c: "ci_equal kw (js ''Chapter'')"
    from number_text_hd [OF ip] have t: "number_text ip fp \<noteq> []" "is_digit (hd (number_text ip fp))" .
    then have "\<not> is_ws (hd (number_text ip fp))" by (auto dest: digit_not_ws)
    from dropWhile_ws_run [OF w t(1) this]
    have d: "dropWhile is_ws (w @ number_text ip fp) = number_text ip fp" .
    have "match_ci (js ''Bonus'') (number_text ip fp) = None"
    proof (cases "match_ci (js ''Bonus'') (number_text ip fp)")
      case (Some r)
      have "js ''Bonus'' \<noteq> []" by (simp add: js_def)
      from match_ci_hd [OF Some this] hd_Bonus
      have "canonicalize (hd (number_text ip fp)) = 0x42" by simp
      with t(2) show ?thesis
        by (auto simp: is_digit_def canonicalize_def word_le_nat_alt split: if_splits)
    qed simp
    with match_ci_append [OF c] d show ?thesis by (simp add: is_bonus_def)
  qed
qed

lemma parseChapterNumber_text:
  assumes v: "v = [] \<or> volume_prefix v"
    and kw: "ci_equal kw (js ''Ch.'') \<or> ci_equal kw (js ''Chapter'')"
    and w: "list_all is_ws w" and ip: "ip \<noteq> []" "list_all is_digit ip"
    and fp: "list_all is_digit fp"
  shows "parseChapterNumber (v @ kw @ w @ number_text ip fp) =
           Number_toString (to_double (decimal_value ip fp))"
proof -
  let ?r = "kw @ w @ number_text ip fp"
  from keyword_hd [OF kw] have r: "?r \<noteq> []" "canonicalize (hd ?r) = 0x43" by simp_all
  then have nws: "\<not> is_ws (hd ?r)" using not_ws_C by blast
  have rv: "remove_volume (v @ ?r) = ?r"
  proof (cases "v = []")
    case True
    from r have "?r = [] \<or> canonicalize (hd ?r) \<noteq> 0x56" by simp
    from remove_volume_no_prefix [OF this] True show ?thesis by simp
  next
    case False
    with v have "volume_prefix v" by simp
    from this r(1) nws show ?thesis by (rule remove_volume_prefix)
  qed
  from r(1) have ne: "v @ ?r \<noteq> []" by simp
  have "parseChapterNumber (v @ ?r) = Number_toString (parseFloat (number_text ip fp))"
    unfolding parseChapterNumber_def Let_def rv
      chapter_match_text [OF kw w ip fp]
    using ne not_bonus_text [OF kw w ip] by (simp only: if_False option.case)
  then show ?thesis by (simp only: parseFloat_text [OF ip fp])
qed

section \<open>Evaluation of examples\<close>

lemma digit_value_simps:
  "digit_value 0x30 = 0" "digit_value 0x31 = 1" "digit_value 0x32 = 2" "digit_value 0x33 = 3"
  "digit_value 0x34 = 4" "digit_value 0x35 = 5" "digit_value 0x36 = 6" "digit_value 0x37 = 7"
  "digit_value 0x38 = 8" "digit_value 0x39 = 9"
  by (simp_all add: digit_value_def)

lemma toString_exponent:
  assumes r: "dec_rep s 1 n x" and n: "- 8 \<le> n" "n \<le> 28" and out: "n < - 5 \<or> 21 < n"
  shows "Number_toString (to_double x) =
     int_digits s @ js ''e'' @ (if n - 1 < 0 then js ''-'' else js ''+'') @ int_digits \<bar>n - 1\<bar>"
proof -
  from dec_rep_bounds [OF r] have b: "10 powi (n - 1) \<le> x" "x < 10 powi n" "0 < x" .
  have "in_range x"
    using n b by (intro in_range_decade [of n]) simp_all
  then have t: "to_double x = Finite (binary64_round x)" by (rule to_double_in_range)
  from b(3) have "0 < binary64_round x" by (rule binary64_round_pos)
  then have nz: "binary64_round x \<noteq> 0" by simp
  have "(1::nat) \<le> 15" by simp
  from shortest_digits_dec_rep [OF r this n]
  have sd: "shortest_digits (binary64_round x) = (s, 1, n)" .
  from out have o: "\<not> (- 5 \<le> n \<and> n \<le> 21)" by linarith
  show ?thesis
    unfolding t Number_toString_def js_number.case sd Let_def prod.case
    using nz o by (simp only: if_False if_True simp_thms)
qed

lemma binary64_round_eval:
  assumes "2 powi e \<le> v" "v < 2 powi (e + 1)"
  shows "binary64_round v = of_int (round_half_even (v / 2 powi (e - 52))) * 2 powi (e - 52)"
  unfolding binary64_round_def ilog2_unique [OF assms] ..

lemma floor_rat_divide_numeral:
  "\<lfloor>(numeral a :: rat) / numeral b\<rfloor> = numeral a div numeral b"
  using floor_divide_of_int_eq [of "numeral a" "numeral b", where ?'a = rat] by simp

lemma round_half_even_numeral: "round_half_even (numeral a) = numeral a"
  using round_half_even_of_int [of "numeral a"] by simp

lemma example_small: "Number_toString (to_double (1 / 10 ^ 7)) = js ''1e-7''"
proof -
  have "dec_rep 1 1 (- 6) (1 / 10 ^ 7)"
    by (simp add: dec_rep_def power_int_minus)
  from toString_exponent [OF this] show ?thesis
    by (simp add: int_digits_small digit_cu_def js_def)
qed

lemma example_large: "Number_toString (to_double (10 ^ 21)) = js ''1e+21''"
proof -
  have "dec_rep 1 1 22 (10 ^ 21)"
    by (simp add: dec_rep_def)
  from toString_exponent [OF this] show ?thesis
    by (simp add: int_digits_small int_digits_large digit_cu_def js_def)
qed

lemma example_one: "Number_toString (to_double 1) = js ''1''"
proof -
  have "dec_rep 1 1 1 1"
    by (simp add: dec_rep_def)
  from toString_dec_rep [OF this] show ?thesis
    by (simp add: int_digits_small digit_cu_def js_def)
qed

lemma example_round_one: "to_double (1 + 1 / 10 ^ 16) = to_double 1"
proof -
  have 1: "binary64_round 1 = 1"
    by (subst binary64_round_eval [of 0]) (simp_all add: power_int_minus round_half_even_numeral)
  have 2: "binary64_round (1 + 1 / 10 ^ 16) = 1"
    by (subst binary64_round_eval [of 0])
      (simp_all add: power_int_minus round_half_even_def Let_def floor_rat_divide_numeral)
  have r: "in_range 1" "in_range (1 + 1 / 10 ^ 16)"
    by (simp_all add: in_range_def power_int_minus)
  show ?thesis
    unfolding to_double_in_range [OF r(1)] to_double_in_range [OF r(2)] 1 2 ..
qed

lemma example_round_even: "to_double 9007199254740993 = to_double 9007199254740992"
proof -
  have 1: "binary64_round 9007199254740992 = 9007199254740992"
    by (subst binary64_round_eval [of 53]) (simp_all add: round_half_even_numeral)
  have 2: "binary64_round 9007199254740993 = 9007199254740992"
    by (subst binary64_round_eval [of 53])
      (simp_all add: round_half_even_def Let_def floor_rat_divide_numeral)
  have r: "in_range 9007199254740992" "in_range 9007199254740993"
    by (simp_all add: in_range_def power_int_minus)
  show ?thesis
    unfolding to_double_in_range [OF r(1)] to_double_in_range [OF r(2)] 1 2 ..
qed

section \<open>Properties of buildUrl\<close>

text \<open>
  Claim C7. For every input string, buildUrl behaves by cases: the empty input gives the
  empty string; an input starting with "http" is returned unchanged; an input starting
  with "/" is returned prefixed with the service origin "https://mangapark.io"; any other
  non-empty input is returned unchanged.
\<close>

theorem buildUrl_cases:
  "buildUrl [] = [] \<and>
   (startsWith path (js ''http'') \<longrightarrow> buildUrl path = path) \<and>
   (startsWith path (js ''/'') \<longrightarrow> buildUrl path = js ''https://mangapark.io'' @ path) \<and>
   (path \<noteq> [] \<and> \<not> startsWith path (js ''http'') \<and> \<not> startsWith path (js ''/'')
      \<longrightarrow> buildUrl path = path)"
  by (auto simp: buildUrl_def baseUrl_def startsWith_def js_def prefix_def)

theorem buildUrl_cases_witness:
  "buildUrl [] = [] \<and>
   buildUrl (js ''https://x/y.png'') = js ''https://x/y.png'' \<and>
   buildUrl (js ''/covers/a.png'') = js ''https://mangapark.io/covers/a.png'' \<and>
   buildUrl (js ''title/123'') = js ''title/123''"
proof -
  have h: "startsWith (js ''https://x/y.png'') (js ''http'')"
    by (simp add: startsWith_def js_def)
  have s: "startsWith (js ''/covers/a.png'') (js ''/'')"
    by (simp add: startsWith_def js_def)
  have o: "js ''title/123'' \<noteq> [] \<and> \<not> startsWith (js ''title/123'') (js ''http'')
      \<and> \<not> startsWith (js ''title/123'') (js ''/'')"
    by (simp add: startsWith_def js_def)
  from buildUrl_cases [of "js ''https://x/y.png''"] h
  have 1: "buildUrl (js ''https://x/y.png'') = js ''https://x/y.png''" by blast
  from buildUrl_cases [of "js ''/covers/a.png''"] s
  have 2: "buildUrl (js ''/covers/a.png'') = js ''https://mangapark.io'' @ js ''/covers/a.png''"
    by blast
  from buildUrl_cases [of "js ''title/123''"] o
  have 3: "buildUrl (js ''title/123'') = js ''title/123''" by blast
  from buildUrl_cases [of "[]"] have 0: "buildUrl [] = []" by blast
  from 0 1 2 3 show ?thesis by (simp add: js_def)
qed

section \<open>Properties of search\<close>

text \<open>
  Claim C2, as stated, fails. The cover of a search result whose \<open>urlCoverOri\<close> is neither absolute nor relative to
  the origin: \<open>buildUrl\<close> returns such a value as it is, so the image is that value,
  not \<open>undefined\<close>.
\<close>

theorem search_image_counterexample:
  "search (respond (search_response [search_item_of ''123'' ''Foo'' ''covers/a.png'']))
     \<lparr>qo_query = Some (js ''Foo'')\<rparr>
   = Inr [\<lparr>sr_id = Some (js ''123''), sr_title = js ''Foo'', sr_synonyms = None,
          sr_image = Some (js ''covers/a.png''), sr_year = None\<rparr>]"
  by (simp add: search_def search_try_def graphqlRequest_respond search_items_def
      search_response_def search_item_of_def search_entry_def search_image_def or_else_def
      or_string_def truthy_def buildUrl_def startsWith_def js_def)

text \<open>
  Claim C2 (amended). For every search response whose item list has no \<open>null\<close>
  element, search returns one result for each item that has data, in the order of the
  list, and resolves the cover-image field of the item as follows: a missing or empty
  value gives no image (the field is undefined); a value beginning with "http" is passed
  through unchanged; a relative path (leading "/") is prefixed with the service origin
  "https://mangapark.io"; any other non-empty value is passed through unchanged. A
  response whose item list has a \<open>null\<close> element gives the empty output.
\<close>

theorem search_resolves_images:
  assumes "fetch (request_of SEARCH_QUERY (Select 1 24 (or_else (qo_query opts) None))) =
      Response status (Json (Some \<lparr>result_data = Some
        \<lparr>get_searchComic = Some \<lparr>items = Some xs\<rparr>, get_comicChapterList = cl,
         get_chapterNode = cn\<rparr>\<rparr>))"
    and "response_ok status"
  shows "\<exists>out. search fetch opts = Inr out \<and>
           map sr_image out =
             (if None \<in> set xs then []
              else map (\<lambda>d. case sd_urlCoverOri d of
                               None \<Rightarrow> None
                             | Some p \<Rightarrow>
                                 if p = [] then None
                                 else if startsWith p (js ''http'') then Some p
                                 else if startsWith p (js ''/'')
                                   then Some (js ''https://mangapark.io'' @ p)
                                 else Some p)
                     (data_items xs))"
proof -
  let ?result = "Some \<lparr>result_data = Some
        \<lparr>get_searchComic = Some \<lparr>items = Some xs\<rparr>, get_comicChapterList = cl,
         get_chapterNode = cn\<rparr>\<rparr>"
  have si: "search_items ?result = xs"
    by (simp add: search_items_def)
  have im: "sr_image (search_entry d) =
     (case sd_urlCoverOri d of
        None \<Rightarrow> None
      | Some p \<Rightarrow>
          if p = [] then None
          else if startsWith p (js ''http'') then Some p
          else if startsWith p (js ''/'') then Some (js ''https://mangapark.io'' @ p)
          else Some p)" for d
    by (auto simp: search_entry_def search_image_def or_else_def or_string_def truthy_def
        buildUrl_def baseUrl_def split: option.splits)
  from assms have "search fetch opts =
     Inr (if None \<in> set (search_items ?result) then []
          else map search_entry (data_items (search_items ?result)))"
    by (rule search_ok_eq)
  then show ?thesis
    unfolding si by (simp add: im comp_def)
qed

theorem search_resolves_images_witness:
  "response_ok 200 \<and>
   (\<exists>out. search (respond (search_response
        [search_item_of ''1'' ''A'' ''https://x/a.png'', Some \<lparr>item_data = None\<rparr>,
         search_item_of ''2'' ''B'' ''/covers/b.png'', search_item_of ''3'' ''C'' ''covers/c.png'',
         search_item_of ''4'' ''D'' '''']))
      \<lparr>qo_query = Some (js ''Foo'')\<rparr> = Inr out \<and>
      map sr_image out =
        [Some (js ''https://x/a.png''), Some (js ''https://mangapark.io/covers/b.png''),
         Some (js ''covers/c.png''), None]) \<and>
   (\<exists>out. search (respond (search_response [search_item_of ''1'' ''A'' ''/covers/a.png'', None]))
      \<lparr>qo_query = Some (js ''Foo'')\<rparr> = Inr out \<and> map sr_image out = [])"
proof -
  let ?xs = "[search_item_of ''1'' ''A'' ''https://x/a.png'', Some \<lparr>item_data = None\<rparr>,
         search_item_of ''2'' ''B'' ''/covers/b.png'', search_item_of ''3'' ''C'' ''covers/c.png'',
         search_item_of ''4'' ''D'' '''']"
  let ?ys = "[search_item_of ''1'' ''A'' ''/covers/a.png'', None]"
  let ?opts = "\<lparr>qo_query = Some (js ''Foo'')\<rparr>"
  have 1: "respond (search_response ?xs)
      (request_of SEARCH_QUERY (Select 1 24 (or_else (qo_query ?opts) None))) =
      Response 200 (Json (Some \<lparr>result_data = Some
        \<lparr>get_searchComic = Some \<lparr>items = Some ?xs\<rparr>, get_comicChapterList = None,
         get_chapterNode = None\<rparr>\<rparr>))"
    unfolding search_response_def [symmetric] by (rule respond_request)
  have 2: "respond (search_response ?ys)
      (request_of SEARCH_QUERY (Select 1 24 (or_else (qo_query ?opts) None))) =
      Response 200 (Json (Some \<lparr>result_data = Some
        \<lparr>get_searchComic = Some \<lparr>items = Some ?ys\<rparr>, get_comicChapterList = None,
         get_chapterNode = None\<rparr>\<rparr>))"
    unfolding search_response_def [symmetric] by (rule respond_request)
  have nx: "None \<notin> set ?xs" by (simp add: search_item_of_def)
  have ny: "None \<in> set ?ys" by simp
  from search_resolves_images [where fetch = "respond (search_response ?xs)", OF 1 ok_200] nx
  have a: "\<exists>out. search (respond (search_response ?xs)) ?opts = Inr out \<and>
      map sr_image out =
        [Some (js ''https://x/a.png''), Some (js ''https://mangapark.io/covers/b.png''),
         Some (js ''covers/c.png''), None]"
    by (auto simp: data_items_def search_item_of_def startsWith_def js_def)
  from search_resolves_images [where fetch = "respond (search_response ?ys)", OF 2 ok_200] ny
  have b: "\<exists>out. search (respond (search_response ?ys)) ?opts = Inr out \<and>
      map sr_image out = []"
    by auto
  from ok_200 a b show ?thesis by (intro conjI)
qed

section \<open>Properties of findChapters\<close>

text \<open>
  Claim C3, as stated, fails. A record without a title and with the display name "Prologue": the title of its entry
  is missing, it is not the display name.
\<close>

theorem findChapters_title_counterexample:
  "findChapters (respond (chapters_response
       [chapter_item_of (chapter_record ''a'' ''Prologue'' None None)])) (js ''7'') =
     Inr [\<lparr>cd_id = Some (js ''a''), cd_url = [], cd_title = None, cd_chapter = js ''Prologue'',
           cd_index = 0, cd_language = None, cd_scanlator = None, cd_updatedAt = None\<rparr>]
   \<and> ch_dname (chapter_record ''a'' ''Prologue'' None None) = Some (js ''Prologue'')"
proof -
  have p: "parseChapterNumber (js ''Prologue'') = js ''Prologue''"
    by (rule parseChapterNumber_no_C) (simp add: js_def canonicalize_def)
  show ?thesis
    by (simp add: findChapters_respond chapter_item_of_def chapter_record_def chapter_entry_def
        chapter_timestamp_def chapter_updatedAt_def chapter_scanlator_def or_else_def truthy_def
        or_string_def buildUrl_def p)
qed

text \<open>
  Claim C3 (amended). For every chapter record returned by the server, the entry
  produced by findChapters has the title field of the record as it was received: equal to
  it when it is present, and missing when the record has none. The display name is not
  used for the title. (The entries are those of the records with a data object, in their
  order; there are none when the loop fails.)
\<close>

theorem findChapters_title:
  assumes "fetch (request_of CHAPTERS_QUERY (Id mangaId)) = Response status (Json result)"
    and "response_ok status"
    and "findChapters fetch mangaId = Inr out"
  shows "map cd_title out = map ch_title (take (length out) (data_records (chapter_list result)))
     \<and> (if well_formed (chapter_list result)
         then length out = length (data_records (chapter_list result)) else out = [])"
proof -
  have "map cd_title out = map ch_title (take (length out) (data_records (chapter_list result)))"
    using assms by (rule findChapters_map) (rule chapter_entry_fields(2))
  then show ?thesis using findChapters_entries [OF assms] by simp
qed

theorem findChapters_title_witness:
  "map cd_title [\<lparr>cd_id = Some (js ''a''), cd_url = [], cd_title = None, cd_chapter = js ''Prologue'',
           cd_index = 0, cd_language = None, cd_scanlator = None, cd_updatedAt = None\<rparr>] =
   map ch_title (take 1 (data_records [chapter_item_of (chapter_record ''a'' ''Prologue'' None None)]))
   \<and> well_formed [chapter_item_of (chapter_record ''a'' ''Prologue'' None None)]"
proof -
  let ?xs = "[chapter_item_of (chapter_record ''a'' ''Prologue'' None None)]"
  let ?out = "[\<lparr>cd_id = Some (js ''a''), cd_url = [], cd_title = None, cd_chapter = js ''Prologue'',
           cd_index = 0, cd_language = None, cd_scanlator = None, cd_updatedAt = None\<rparr>]"
  have p: "parseChapterNumber (js ''Prologue'') = js ''Prologue''"
    by (rule parseChapterNumber_no_C) (simp add: js_def canonicalize_def)
  have 1: "respond (chapters_response ?xs) (request_of CHAPTERS_QUERY (Id (js ''7''))) =
      Response 200 (Json (Some \<lparr>result_data = Some (chapters_response ?xs)\<rparr>))"
    by (rule respond_request)
  have 2: "findChapters (respond (chapters_response ?xs)) (js ''7'') = Inr ?out"
    by (simp add: findChapters_respond chapter_item_of_def chapter_record_def chapter_entry_def
        chapter_timestamp_def chapter_updatedAt_def chapter_scanlator_def or_else_def truthy_def
        or_string_def buildUrl_def p)
  have 3: "well_formed ?xs"
    by (simp add: well_formed_def data_records_def chapter_item_of_def chapter_record_def
        timestamp_in_range_def chapter_timestamp_def)
  from findChapters_title [OF 1 ok_200 2] 3 show ?thesis
    by (simp add: chapter_list_response)
qed

text \<open>
  Claim C4, as stated, fails. Two responses on which the output is not the sequence of the record identifiers: a
  time stamp that \<open>Date\<close> cannot hold, and a list element that is \<open>null\<close>. Both
  raise an error inside the \<open>try\<close> block, and the result is the empty sequence.
\<close>

theorem findChapters_order_counterexample:
  "findChapters (respond (chapters_response
       [chapter_item_of (chapter_record ''a'' ''Prologue'' (Some 10000000000000) None)])) (js ''7'') = Inr []
   \<and> findChapters (respond (chapters_response
       [chapter_item_of (chapter_record ''a'' ''Prologue'' None None), None])) (js ''7'') = Inr []
   \<and> map ch_id (data_records
       [chapter_item_of (chapter_record ''a'' ''Prologue'' (Some 10000000000000) None)]) = [Some (js ''a'')]
   \<and> map ch_id (data_records
       [chapter_item_of (chapter_record ''a'' ''Prologue'' None None), None]) = [Some (js ''a'')]"
proof -
  have p: "parseChapterNumber (js ''Prologue'') = js ''Prologue''"
    by (rule parseChapterNumber_no_C) (simp add: js_def canonicalize_def)
  have 1: "findChapters (respond (chapters_response
       [chapter_item_of (chapter_record ''a'' ''Prologue'' (Some 10000000000000) None)])) (js ''7'') = Inr []"
    by (simp add: findChapters_respond chapter_item_of_def chapter_record_def chapter_entry_def
        chapter_timestamp_def chapter_updatedAt_def toISOString_def)
  have 2: "findChapters (respond (chapters_response
       [chapter_item_of (chapter_record ''a'' ''Prologue'' None None), None])) (js ''7'') = Inr []"
    by (simp add: findChapters_respond chapter_item_of_def chapter_record_def chapter_entry_def
        chapter_timestamp_def chapter_updatedAt_def)
  from 1 2 show ?thesis
    by (simp add: data_records_def chapter_item_of_def chapter_record_def)
qed

text \<open>
  Claim C4 (amended). For every server chapter-list response, findChapters returns
  entries whose indices are 0, 1, 2, ... in the order of the output. When the loop runs to
  its end (no list element is null and every time stamp used is within the range of Date),
  the entries are not re-sorted: the output sequence of chapter identifiers is exactly the
  sequence, in server order, of the identifiers of the records that have a data object.
  Otherwise the output is empty.
\<close>

theorem findChapters_order:
  assumes "fetch (request_of CHAPTERS_QUERY (Id mangaId)) = Response status (Json result)"
    and "response_ok status"
  shows "\<exists>out. findChapters fetch mangaId = Inr out \<and>
           map cd_index out = [0..<length out] \<and>
           (if well_formed (chapter_list result)
            then map cd_id out = map ch_id (data_records (chapter_list result))
            else out = [])"
proof -
  obtain out where out: "findChapters fetch mangaId = Inr out"
    using findChapters_Inr by blast
  from out have idx: "map cd_index out = [0..<length out]" by (rule findChapters_index)
  have ids: "map cd_id out = map ch_id (take (length out) (data_records (chapter_list result)))"
    using assms out by (rule findChapters_map) (rule chapter_entry_fields(1))
  from findChapters_entries [OF assms out] ids
  have "if well_formed (chapter_list result)
        then map cd_id out = map ch_id (data_records (chapter_list result)) else out = []"
    by (simp split: if_splits)
  with out idx show ?thesis by blast
qed

theorem findChapters_order_witness:
  "response_ok 200 \<and>
   well_formed [no_data, chapter_item_of (chapter_record ''b'' ''Prologue'' None None),
        chapter_item_of (chapter_record ''a'' ''Epilogue'' None None)] \<and>
   (\<exists>out. findChapters (respond (chapters_response
       [no_data, chapter_item_of (chapter_record ''b'' ''Prologue'' None None),
        chapter_item_of (chapter_record ''a'' ''Epilogue'' None None)])) (js ''7'') = Inr out \<and>
      map cd_index out = [0..<length out] \<and>
      map cd_id out = [Some (js ''b''), Some (js ''a'')])"
proof -
  let ?xs = "[no_data, chapter_item_of (chapter_record ''b'' ''Prologue'' None None),
        chapter_item_of (chapter_record ''a'' ''Epilogue'' None None)]"
  have 1: "respond (chapters_response ?xs) (request_of CHAPTERS_QUERY (Id (js ''7''))) =
      Response 200 (Json (Some \<lparr>result_data = Some (chapters_response ?xs)\<rparr>))"
    by (rule respond_request)
  have wf: "well_formed ?xs"
    by (simp add: well_formed_def data_records_def chapter_item_of_def chapter_record_def
        timestamp_in_range_def chapter_timestamp_def no_data_def)
  have ds: "map ch_id (data_records ?xs) = [Some (js ''b''), Some (js ''a'')]"
    by (simp add: data_records_def chapter_item_of_def no_data_def chapter_record_def)
  from findChapters_order [where fetch = "respond (chapters_response ?xs)", OF 1 ok_200] wf ds ok_200
  show ?thesis by (simp add: chapter_list_response)
qed

text \<open>
  Claim C9. Every response item whose nested data sub-object is absent is
  skipped by search and findChapters (no output entry is produced for it), and the indices
  of the entries that findChapters emits are the contiguous sequence 0..k-1 over the
  emitted entries: after a skipped record, the indices are positions among the emitted
  entries, not positions in the server list.
\<close>

theorem data_less_items_skipped:
  assumes "fetch (request_of SEARCH_QUERY (Select 1 24 (or_else (qo_query opts) None))) =
      Response status (Json result)"
    and "response_ok status"
    and "fetch' (request_of CHAPTERS_QUERY (Id mangaId)) = Response status' (Json result')"
    and "response_ok status'"
  shows "search fetch opts =
           Inr (if None \<in> set (search_items result) then []
                else map search_entry (data_items (search_items result)))
         \<and> (\<exists>out. findChapters fetch' mangaId = Inr out \<and>
               map cd_index out = [0..<length out] \<and>
               (if well_formed (chapter_list result')
                then length out = length (data_records (chapter_list result'))
                else out = []))"
proof -
  obtain out where out: "findChapters fetch' mangaId = Inr out"
    using findChapters_Inr by blast
  from out have "map cd_index out = [0..<length out]" by (rule findChapters_index)
  moreover from assms(1,2) have "search fetch opts =
           Inr (if None \<in> set (search_items result) then []
                else map search_entry (data_items (search_items result)))"
    by (rule search_ok_eq)
  ultimately show ?thesis using out findChapters_entries [OF assms(3,4) out] by simp
qed

theorem data_less_items_skipped_witness:
  "response_ok 200 \<and>
   search (respond (search_response
       [Some \<lparr>item_data = None\<rparr>, search_item_of ''123'' ''Foo'' ''/c.jpg'']))
     \<lparr>qo_query = Some (js ''Foo'')\<rparr> =
     Inr [\<lparr>sr_id = Some (js ''123''), sr_title = js ''Foo'', sr_synonyms = None,
           sr_image = Some (js ''https://mangapark.io/c.jpg''), sr_year = None\<rparr>] \<and>
   (\<exists>out. findChapters (respond (chapters_response
       [no_data, chapter_item_of (chapter_record ''b'' ''Prologue'' None None), no_data,
        chapter_item_of (chapter_record ''a'' ''Epilogue'' None None)])) (js ''7'') = Inr out \<and>
      map cd_index out = [0, 1] \<and> length out = 2)"
proof -
  let ?is = "[Some \<lparr>item_data = None\<rparr>, search_item_of ''123'' ''Foo'' ''/c.jpg'']"
  let ?xs = "[no_data, chapter_item_of (chapter_record ''b'' ''Prologue'' None None), no_data,
        chapter_item_of (chapter_record ''a'' ''Epilogue'' None None)]"
  let ?opts = "\<lparr>qo_query = Some (js ''Foo'')\<rparr>"
  have 1: "respond (search_response ?is)
      (request_of SEARCH_QUERY (Select 1 24 (or_else (qo_query ?opts) None))) =
      Response 200 (Json (Some \<lparr>result_data = Some (search_response ?is)\<rparr>))"
    by (rule respond_request)
  have 2: "respond (chapters_response ?xs) (request_of CHAPTERS_QUERY (Id (js ''7''))) =
      Response 200 (Json (Some \<lparr>result_data = Some (chapters_response ?xs)\<rparr>))"
    by (rule respond_request)
  have si: "search_items (Some \<lparr>result_data = Some (search_response ?is)\<rparr>) = ?is"
    by (simp add: search_items_def search_response_def)
  have nn: "None \<notin> set ?is" by (simp add: search_item_of_def)
  have di: "map search_entry (data_items ?is) =
      [\<lparr>sr_id = Some (js ''123''), sr_title = js ''Foo'', sr_synonyms = None,
           sr_image = Some (js ''https://mangapark.io/c.jpg''), sr_year = None\<rparr>]"
    by (simp add: data_items_def search_item_of_def search_entry_def search_image_def or_else_def
        or_string_def truthy_def buildUrl_def baseUrl_def startsWith_def js_def)
  have wf: "well_formed ?xs"
    by (simp add: well_formed_def data_records_def chapter_item_of_def chapter_record_def
        timestamp_in_range_def chapter_timestamp_def no_data_def)
  have ds: "length (data_records ?xs) = 2"
    by (simp add: data_records_def chapter_item_of_def no_data_def)
  have u: "[0..<2] = [0, Suc 0]" by (simp add: numeral_2_eq_2)
  from data_less_items_skipped [where fetch = "respond (search_response ?is)"
      and fetch' = "respond (chapters_response ?xs)", OF 1 ok_200 2 ok_200]
    si nn di wf ds ok_200 u
  show ?thesis by (auto simp: chapter_list_response)
qed



section \<open>Properties of findChapterPages\<close>

text \<open>
  Claim C8. For every server page response with URL list u_0..u_{n-1},
  findChapterPages returns exactly n page entries, the i-th entry has url u_i and index i
  (the indices are 0, 1, ..., n-1 in server order, nothing is reordered), and every entry
  carries the fixed request headers.
\<close>

theorem findChapterPages_order:
  assumes "fetch (request_of PAGES_QUERY (Id chapterId)) =
      Response status (Json (Some \<lparr>result_data = Some
        \<lparr>get_searchComic = sc, get_comicChapterList = cl,
         get_chapterNode = Some \<lparr>chapter_node_data = Some
           \<lparr>imageFile = Some \<lparr>urlList = Some us\<rparr>\<rparr>\<rparr>\<rparr>\<rparr>))"
    and "response_ok status"
  shows "\<exists>pages. findChapterPages fetch chapterId = Inr pages \<and> length pages = length us \<and>
           (\<forall>i<length us. cp_url (pages ! i) = us ! i \<and> cp_index (pages ! i) = i \<and>
              cp_headers (pages ! i) = DEFAULT_HEADERS)"
proof -
  let ?result = "Some \<lparr>result_data = Some
        \<lparr>get_searchComic = sc, get_comicChapterList = cl,
         get_chapterNode = Some \<lparr>chapter_node_data = Some
           \<lparr>imageFile = Some \<lparr>urlList = Some us\<rparr>\<rparr>\<rparr>\<rparr>\<rparr>"
  from assms have "graphqlRequest fetch PAGES_QUERY (Id chapterId) = Inr ?result"
    by (rule graphqlRequest_ok)
  moreover have "page_urls ?result = us"
    by (simp add: page_urls_def)
  ultimately have "findChapterPages fetch chapterId =
      Inr (map (\<lambda>(index, url). \<lparr>cp_url = url, cp_index = index, cp_headers = DEFAULT_HEADERS\<rparr>)
             (enumerate 0 us))"
    by (simp add: findChapterPages_def findChapterPages_try_def)
  then show ?thesis by (simp add: nth_enumerate_eq)
qed

theorem findChapterPages_order_witness:
  "response_ok 200 \<and>
   (\<exists>pages. findChapterPages (respond (pages_response [js ''https://x/1.png'', js ''https://x/0.png''])) (js ''9'')
        = Inr pages \<and> length pages = 2 \<and>
      (\<forall>i<2. cp_url (pages ! i) = [js ''https://x/1.png'', js ''https://x/0.png''] ! i \<and>
         cp_index (pages ! i) = i \<and> cp_headers (pages ! i) = DEFAULT_HEADERS))"
proof -
  let ?us = "[js ''https://x/1.png'', js ''https://x/0.png'']"
  have 1: "respond (pages_response ?us) (request_of PAGES_QUERY (Id (js ''9''))) =
      Response 200 (Json (Some \<lparr>result_data = Some
        \<lparr>get_searchComic = None, get_comicChapterList = None,
         get_chapterNode = Some \<lparr>chapter_node_data = Some
           \<lparr>imageFile = Some \<lparr>urlList = Some ?us\<rparr>\<rparr>\<rparr>\<rparr>\<rparr>))"
    unfolding pages_response_def [symmetric] by (rule respond_request)
  from findChapterPages_order [where fetch = "respond (pages_response ?us)", OF 1 ok_200] ok_200
  show ?thesis by (simp add: numeral_2_eq_2)
qed

section \<open>Failures of the transport\<close>

text \<open>
  Claim C5. When the endpoint responds with a non-success HTTP status, and more
  generally on any network, HTTP-status or parse failure, each of search, findChapters and
  findChapterPages returns an empty sequence and raises no error to the caller.
\<close>

theorem failure_gives_empty:
  assumes "\<And>req. failed (fetch req)"
  shows "search fetch opts = Inr [] \<and> findChapters fetch mangaId = Inr [] \<and>
         findChapterPages fetch chapterId = Inr []"
proof -
  have g: "\<exists>e. graphqlRequest fetch q vars = Inl e" for q vars
    using assms by (rule graphqlRequest_failed)
  from g obtain e1 where "graphqlRequest fetch SEARCH_QUERY (Select 1 24 (or_else (qo_query opts) None)) = Inl e1"
    by blast
  then have 1: "search fetch opts = Inr []" by (simp add: search_def search_try_def)
  from g obtain e2 where "graphqlRequest fetch CHAPTERS_QUERY (Id mangaId) = Inl e2"
    by blast
  then have 2: "findChapters fetch mangaId = Inr []"
    by (simp add: findChapters_def findChapters_try_def)
  from g obtain e3 where "graphqlRequest fetch PAGES_QUERY (Id chapterId) = Inl e3"
    by blast
  then have 3: "findChapterPages fetch chapterId = Inr []"
    by (simp add: findChapterPages_def findChapterPages_try_def)
  from 1 2 3 show ?thesis by simp
qed

theorem failure_gives_empty_witness:
  "failed (Response 500 (Json None)) \<and> failed (Response 200 Malformed) \<and> failed Rejected \<and>
   search (\<lambda>req. Response 500 (Json None)) \<lparr>qo_query = Some (js ''Foo'')\<rparr> = Inr [] \<and>
   findChapters (\<lambda>req. Response 200 Malformed) (js ''7'') = Inr [] \<and>
   findChapterPages (\<lambda>req. Rejected) (js ''9'') = Inr []"
proof -
  have 1: "failed ((\<lambda>req. Response 500 (Json None)) req)" for req :: request
    by (simp add: failed_def response_ok_def)
  have 2: "failed ((\<lambda>req. Response 200 Malformed) req)" for req :: request
    by (simp add: failed_def)
  have 3: "failed ((\<lambda>req. Rejected) req)" for req :: request
    by (simp add: failed_def)
  from failure_gives_empty [of "\<lambda>req. Response 500 (Json None)", OF 1]
    failure_gives_empty [of "\<lambda>req. Response 200 Malformed", OF 2]
    failure_gives_empty [of "\<lambda>req. Rejected", OF 3] 1 2 3
  show ?thesis by simp
qed

section \<open>Properties of parseChapterNumber\<close>

text \<open>
  Claim C6. parseChapterNumber applied to "Chapter Bonus" (also after a volume
  prefix, and in any case of the letters) returns the literal string "Chapter Bonus", and
  for every input string in which no chapter pattern is recognized (such as "Omake") it
  returns the original input string unmodified.
\<close>

theorem parseChapterNumber_bonus_and_fallback:
  "(ci_equal c (js ''Chapter'') \<and> w \<noteq> [] \<and> list_all is_ws w \<and> ci_equal b (js ''Bonus'') \<and>
      (v = [] \<or> volume_prefix v)
      \<longrightarrow> parseChapterNumber (v @ c @ w @ b @ rest) = js ''Chapter Bonus'') \<and>
   (\<not> is_bonus (remove_volume d) \<and> chapter_match (remove_volume d) = None
      \<longrightarrow> parseChapterNumber d = d) \<and>
   ((\<forall>x\<in>set d. canonicalize x \<noteq> 0x43) \<longrightarrow> parseChapterNumber d = d)"
proof (intro conjI impI)
  assume a: "ci_equal c (js ''Chapter'') \<and> w \<noteq> [] \<and> list_all is_ws w \<and>
    ci_equal b (js ''Bonus'') \<and> (v = [] \<or> volume_prefix v)"
  let ?r = "c @ w @ b @ rest"
  have "js ''Chapter'' \<noteq> []" by (simp add: js_def)
  with a ci_equal_hd hd_Chapter have c: "c \<noteq> []" "canonicalize (hd c) = 0x43" by metis+
  then have r: "?r \<noteq> []" "canonicalize (hd ?r) = 0x43" by simp_all
  then have nws: "\<not> is_ws (hd ?r)" using not_ws_C by blast
  have "remove_volume (v @ ?r) = ?r"
  proof (cases "v = []")
    case True
    from r have "?r = [] \<or> canonicalize (hd ?r) \<noteq> 0x56" by simp
    from remove_volume_no_prefix [OF this] True show ?thesis by simp
  next
    case False
    with a have "volume_prefix v" by simp
    from this r(1) nws show ?thesis by (rule remove_volume_prefix)
  qed
  moreover from a have "is_bonus ?r" by (simp add: is_bonus_shape)
  moreover from c have "v @ ?r \<noteq> []" by simp
  ultimately show "parseChapterNumber (v @ ?r) = js ''Chapter Bonus''"
    unfolding parseChapterNumber_def Let_def by (simp only: if_False if_True)
next
  assume "\<not> is_bonus (remove_volume d) \<and> chapter_match (remove_volume d) = None"
  then show "parseChapterNumber d = d" by (simp add: parseChapterNumber_def)
next
  assume "\<forall>x\<in>set d. canonicalize x \<noteq> 0x43"
  then show "parseChapterNumber d = d" by (rule parseChapterNumber_no_C)
qed

theorem parseChapterNumber_bonus_and_fallback_witness:
  "parseChapterNumber (js ''Chapter Bonus'') = js ''Chapter Bonus'' \<and>
   parseChapterNumber (js ''vol.3 CHAPTER  bonus 5'') = js ''Chapter Bonus'' \<and>
   parseChapterNumber (js ''Vol.3 Omake'') = js ''Vol.3 Omake'' \<and>
   parseChapterNumber (js ''Omake'') = js ''Omake''"
proof -
  have w1: "js '' '' \<noteq> [] \<and> list_all is_ws (js '' '')"
    and w2: "js ''  '' \<noteq> [] \<and> list_all is_ws (js ''  '')"
    by (simp_all add: js_def is_ws_def)
  have c1: "ci_equal (js ''Chapter'') (js ''Chapter'')" and b1: "ci_equal (js ''Bonus'') (js ''Bonus'')"
    and c2: "ci_equal (js ''CHAPTER'') (js ''Chapter'')" and b2: "ci_equal (js ''bonus'') (js ''Bonus'')"
    by (simp_all add: ci_equal_def js_def canonicalize_def)
  have v: "volume_prefix (js ''vol.3 '')"
    by (simp add: volume_prefix_def ci_equal_def js_def canonicalize_def is_ws_def)
  from parseChapterNumber_bonus_and_fallback
    [of "js ''Chapter''" "js '' ''" "js ''Bonus''" "[]" "[]"] w1 c1 b1
  have 1: "parseChapterNumber (js ''Chapter'' @ js '' '' @ js ''Bonus'') = js ''Chapter Bonus''"
    by simp
  from parseChapterNumber_bonus_and_fallback
    [of "js ''CHAPTER''" "js ''  ''" "js ''bonus''" "js ''vol.3 ''" "js '' 5''"] w2 c2 b2 v
  have 2: "parseChapterNumber (js ''vol.3 '' @ js ''CHAPTER'' @ js ''  '' @ js ''bonus'' @ js '' 5'')
      = js ''Chapter Bonus''"
    by simp
  have rv: "remove_volume (js ''Vol.3 Omake'') = js ''Omake''"
    by (simp add: remove_volume_def match_ci_def js_def canonicalize_def is_ws_def)
  have nc: "\<forall>x\<in>set (js ''Omake''). canonicalize x \<noteq> 0x43"
    by (simp add: js_def canonicalize_def)
  have nb: "\<not> is_bonus (js ''Omake'')"
    by (simp add: is_bonus_def match_ci_def js_def canonicalize_def)
  have nm: "chapter_match (js ''Omake'') = None"
    using nc by (rule chapter_match_no_C)
  from parseChapterNumber_bonus_and_fallback [of _ _ _ _ _ "js ''Vol.3 Omake''"] rv nb nm
  have 3: "parseChapterNumber (js ''Vol.3 Omake'') = js ''Vol.3 Omake''" by simp
  from parseChapterNumber_bonus_and_fallback [of _ _ _ _ _ "js ''Omake''"] nc
  have 4: "parseChapterNumber (js ''Omake'') = js ''Omake''" by blast
  from 1 2 3 4 show ?thesis by (simp add: js_def)
qed

text \<open>
  Claim C1, as stated, fails. The number is read by \<open>parseFloat\<close> and written by the
  number's \<open>toString\<close>: a value below \<open>0.000001\<close> or from \<open>1e21\<close> on is written with
  an exponent, and a number with more digits than a binary64 value holds comes back
  with other digits. Three display names of the stated form whose result is not the
  canonical decimal rendering of their number, and two display names with different
  numbers and the same result.
\<close>

theorem parseChapterNumber_canonical_counterexample:
  "parseChapterNumber (js ''Chapter 0.0000001'') = js ''1e-7''
   \<and> canonical_decimal (js ''0'') (js ''0000001'') = js ''0.0000001''
   \<and> parseChapterNumber (js ''Chapter 1000000000000000000000'') = js ''1e+21''
   \<and> canonical_decimal (js ''1000000000000000000000'') [] = js ''1000000000000000000000''
   \<and> parseChapterNumber (js ''Chapter 1.0000000000000001'') = js ''1''
   \<and> canonical_decimal (js ''1'') (js ''0000000000000001'') = js ''1.0000000000000001''
   \<and> parseChapterNumber (js ''Chapter 9007199254740993'') =
       parseChapterNumber (js ''Chapter 9007199254740992'')"
proof -
  have k: "ci_equal (js ''Chapter'') (js ''Ch.'') \<or> ci_equal (js ''Chapter'') (js ''Chapter'')"
    by (simp add: ci_equal_def js_def canonicalize_def)
  have w: "list_all is_ws (js '' '')"
    by (simp add: js_def is_ws_def)
  have d: "js ''0'' \<noteq> []" "list_all is_digit (js ''0'')" "list_all is_digit (js ''0000001'')"
    "js ''1000000000000000000000'' \<noteq> []" "list_all is_digit (js ''1000000000000000000000'')"
    "list_all is_digit []"
    "js ''1'' \<noteq> []" "list_all is_digit (js ''1'')" "list_all is_digit (js ''0000000000000001'')"
    "js ''9007199254740993'' \<noteq> []" "list_all is_digit (js ''9007199254740993'')"
    "js ''9007199254740992'' \<noteq> []" "list_all is_digit (js ''9007199254740992'')"
    by (simp_all add: js_def is_digit_def)
  have r: "decimal_value (js ''0'') (js ''0000001'') = 1 / 10 ^ 7"
    "decimal_value (js ''1000000000000000000000'') [] = 10 ^ 21"
    "decimal_value (js ''1'') (js ''0000000000000001'') = 1 + 1 / 10 ^ 16"
    "decimal_value (js ''9007199254740993'') [] = 9007199254740993"
    "decimal_value (js ''9007199254740992'') [] = 9007199254740992"
    by (simp_all add: decimal_value_def digits_value_def js_def digit_value_simps)
  have t: "[] @ js ''Chapter'' @ js '' '' @ number_text (js ''0'') (js ''0000001'') =
      js ''Chapter 0.0000001''"
    "[] @ js ''Chapter'' @ js '' '' @ number_text (js ''1000000000000000000000'') [] =
      js ''Chapter 1000000000000000000000''"
    "[] @ js ''Chapter'' @ js '' '' @ number_text (js ''1'') (js ''0000000000000001'') =
      js ''Chapter 1.0000000000000001''"
    "[] @ js ''Chapter'' @ js '' '' @ number_text (js ''9007199254740993'') [] =
      js ''Chapter 9007199254740993''"
    "[] @ js ''Chapter'' @ js '' '' @ number_text (js ''9007199254740992'') [] =
      js ''Chapter 9007199254740992''"
    by (simp_all add: number_text_def js_def)
  have e: "[] = [] \<or> volume_prefix []" by simp
  have 1: "parseChapterNumber (js ''Chapter 0.0000001'') = js ''1e-7''"
    using parseChapterNumber_text [OF e k w d(1) d(2) d(3)]
    unfolding t r example_small .
  have 2: "parseChapterNumber (js ''Chapter 1000000000000000000000'') = js ''1e+21''"
    using parseChapterNumber_text [OF e k w d(4) d(5) d(6)]
    unfolding t r example_large .
  have 3: "parseChapterNumber (js ''Chapter 1.0000000000000001'') = js ''1''"
    using parseChapterNumber_text [OF e k w d(7) d(8) d(9)]
    unfolding t r example_round_one example_one .
  have 4: "parseChapterNumber (js ''Chapter 9007199254740993'') =
      parseChapterNumber (js ''Chapter 9007199254740992'')"
    using parseChapterNumber_text [OF e k w d(10) d(11) d(6)]
      parseChapterNumber_text [OF e k w d(12) d(13) d(6)]
    unfolding t r example_round_even by (rule trans [OF _ sym])
  have c: "canonical_decimal (js ''0'') (js ''0000001'') = js ''0.0000001''"
    "canonical_decimal (js ''1000000000000000000000'') [] = js ''1000000000000000000000''"
    "canonical_decimal (js ''1'') (js ''0000000000000001'') = js ''1.0000000000000001''"
    by (simp_all add: canonical_decimal_def js_def)
  from 1 2 3 4 c show ?thesis by (simp only: simp_thms)
qed

text \<open>
  Claim C1 (amended). For every display name of the form an optional volume prefix,
  \<open>Ch.\<close> or \<open>Chapter\<close> in any case, optional white space and a number with an optional
  decimal part, where the number has at most fifteen significant digits and is zero or
  at least \<open>0.000001\<close> and below \<open>1e21\<close>, parseChapterNumber returns the canonical
  decimal rendering of the number, with no leading zeros and no trailing fractional
  zeros.
\<close>

theorem parseChapterNumber_canonical:
  assumes "v = [] \<or> volume_prefix v"
    and "ci_equal kw (js ''Ch.'') \<or> ci_equal kw (js ''Chapter'')"
    and "list_all is_ws w"
    and "ip \<noteq> []" and "list_all is_digit ip" and "list_all is_digit fp"
    and "length (significant ip fp) \<le> 15"
    and "decimal_value ip fp = 0 \<or>
         (1 / 10 ^ 6 \<le> decimal_value ip fp \<and> decimal_value ip fp < 10 ^ 21)"
  shows "parseChapterNumber (v @ kw @ w @ number_text ip fp) = canonical_decimal ip fp"
proof -
  have "parseChapterNumber (v @ kw @ w @ number_text ip fp) =
      Number_toString (to_double (decimal_value ip fp))"
    using assms(1-6) by (rule parseChapterNumber_text)
  also have "\<dots> = canonical_decimal ip fp"
    using assms(5-8) by (rule render_canonical)
  finally show ?thesis .
qed

theorem parseChapterNumber_canonical_witness:
  "parseChapterNumber (js ''Vol.02 Chapter 003'') = js ''3'' \<and>
   parseChapterNumber (js ''Chapter 1.50'') = js ''1.5'' \<and>
   parseChapterNumber (js ''ch.0.000001'') = js ''0.000001''"
proof -
  have v: "volume_prefix (js ''Vol.02 '')"
    by (simp add: volume_prefix_def ci_equal_def js_def canonicalize_def is_ws_def)
  have k1: "ci_equal (js ''Chapter'') (js ''Ch.'') \<or> ci_equal (js ''Chapter'') (js ''Chapter'')"
    and k2: "ci_equal (js ''ch.'') (js ''Ch.'') \<or> ci_equal (js ''ch.'') (js ''Chapter'')"
    by (simp_all add: ci_equal_def js_def canonicalize_def)
  have w: "list_all is_ws (js '' '')" "list_all is_ws []"
    by (simp_all add: js_def is_ws_def)
  have d: "js ''003'' \<noteq> [] \<and> list_all is_digit (js ''003'')"
    "js ''1'' \<noteq> [] \<and> list_all is_digit (js ''1'')"
    "js ''0'' \<noteq> [] \<and> list_all is_digit (js ''0'')"
    "list_all is_digit (js ''50'')" "list_all is_digit (js ''000001'')" "list_all is_digit []"
    by (simp_all add: js_def is_digit_def)
  have s: "length (significant (js ''003'') []) \<le> 15"
    "length (significant (js ''1'') (js ''50'')) \<le> 15"
    "length (significant (js ''0'') (js ''000001'')) \<le> 15"
    by (simp_all add: significant_def js_def)
  have r: "decimal_value (js ''003'') [] = 3" "decimal_value (js ''1'') (js ''50'') = 3 / 2"
    "decimal_value (js ''0'') (js ''000001'') = 1 / 10 ^ 6"
    by (simp_all add: decimal_value_def digits_value_def js_def digit_value_simps)
  have c: "canonical_decimal (js ''003'') [] = js ''3''"
    "canonical_decimal (js ''1'') (js ''50'') = js ''1.5''"
    "canonical_decimal (js ''0'') (js ''000001'') = js ''0.000001''"
    by (simp_all add: canonical_decimal_def js_def)
  have t: "js ''Vol.02 '' @ js ''Chapter'' @ js '' '' @ number_text (js ''003'') [] = js ''Vol.02 Chapter 003''"
    "[] @ js ''Chapter'' @ js '' '' @ number_text (js ''1'') (js ''50'') = js ''Chapter 1.50''"
    "[] @ js ''ch.'' @ [] @ number_text (js ''0'') (js ''000001'') = js ''ch.0.000001''"
    by (simp_all add: number_text_def js_def)
  from parseChapterNumber_canonical [of "js ''Vol.02 ''" "js ''Chapter''" "js '' ''" "js ''003''" "[]"]
    v k1 w d s r
  have 1: "parseChapterNumber (js ''Vol.02 Chapter 003'') = js ''3''"
    unfolding t c by simp
  from parseChapterNumber_canonical [of "[]" "js ''Chapter''" "js '' ''" "js ''1''" "js ''50''"]
    k1 w d s r
  have 2: "parseChapterNumber (js ''Chapter 1.50'') = js ''1.5''"
    unfolding t c by simp
  from parseChapterNumber_canonical [of "[]" "js ''ch.''" "[]" "js ''0''" "js ''000001''"]
    k2 w d s r
  have 3: "parseChapterNumber (js ''ch.0.000001'') = js ''0.000001''"
    unfolding t c by simp
  from 1 2 3 show ?thesis by simp
qed

end
